theory Spec2Isabelle
  imports Main
begin

section \<open>The chat client of \<open>src/App.jsx\<close>\<close>

text \<open>
  The component \<open>App\<close> keeps four pieces of React state: \<open>messages\<close> (the visible
  transcript), \<open>input\<close> (the text area), \<open>isThinking\<close> and \<open>conversationHistory\<close>
  (what earlier turns contributed to the prompt). \<open>handleSend\<close> is an async function:
  it runs up to the awaited call of the generation connector, is resumed when the stream
  is available, once per chunk, and once more when the stream ends or throws.

  Message objects are JavaScript objects held by reference: \<open>userMessage\<close> is put into
  \<open>messages\<close> and later into \<open>conversationHistory\<close>, and the chunk updater writes
  through the last slot of the \<open>messages\<close> array. The model therefore keeps an explicit
  object store; the two state arrays hold addresses into it.

  Modelling conventions:
  \<^item> a state setter takes effect when it is called (React applies queued updates in the
    order they were issued, so the states between two events agree);
  \<^item> an event handler sees the state of the latest render, so the \<open>messages\<close> and
    \<open>conversationHistory\<close> captured by a \<open>handleSend\<close> closure are the state at the
    moment the handler is called; the captured \<open>conversationHistory\<close> is kept with the
    activation, as the closure keeps it across the awaits;
  \<^item> \<open>string\<close> stands for a JavaScript string; a \<open>char\<close> is a code unit below
    256.
\<close>

subsection \<open>Data\<close>

text \<open>\<open>{ role: 'user' | 'assistant', content }\<close>, the objects of both state arrays.\<close>

record message =
  role :: string
  content :: string

text \<open>\<open>{ parts: [{ text }], role }\<close>, an entry of \<open>contextMessages\<close> (the request's
  \<open>contents\<close>); \<open>parts\<close> lists the \<open>text\<close> of each part.\<close>

record content_entry =
  parts :: "string list"
  entry_role :: string

record app =
  store :: "message list"
  messages :: "nat list"
  input :: string
  isThinking :: bool
  conversationHistory :: "nat list"

text \<open>The locals of one activation of \<open>handleSend\<close> that live across its awaits.\<close>

record activation =
  trimmedInput :: string
  userMessage :: nat
  closure_conversationHistory :: "nat list"
  contextMessages :: "content_entry list"
  accumulatedResponse :: string

text \<open>What the generation connector does with one request: the awaited
  \<open>generateContentStream\<close> rejects, or it yields a stream that delivers the texts of its
  chunks in order and then completes or throws (a throwing \<open>chunk.text()\<close> included).\<close>

datatype stream_end = Completes | Throws

datatype connector = Rejects | Streams "string list" stream_end

definition app_init :: app where
  "app_init = \<lparr>store = [], messages = [], input = [], isThinking = False,
     conversationHistory = []\<rparr>"

text \<open>The transcript and the context history as sequences of values.\<close>

definition deref :: "app \<Rightarrow> nat list \<Rightarrow> message list" where
  "deref s as = map (\<lambda>a. store s ! a) as"

definition transcript :: "app \<Rightarrow> message list" where
  "transcript s = deref s (messages s)"

definition history :: "app \<Rightarrow> message list" where
  "history s = deref s (conversationHistory s)"

text \<open>Every reference of the two arrays points into the store, and \<open>messages\<close> holds no
  object twice.\<close>

definition app_ok :: "app \<Rightarrow> bool" where
  "app_ok s = (list_all (\<lambda>a. a < length (store s)) (messages s) \<and> distinct (messages s) \<and>
     list_all (\<lambda>a. a < length (store s)) (conversationHistory s))"

subsection \<open>\<open>String.prototype.trim\<close>\<close>

text \<open>White space and line terminators of ECMAScript among the code units below 256:
  TAB, LF, VT, FF, CR, SP and NBSP.\<close>

definition isWhiteSpace :: "char \<Rightarrow> bool" where
  "isWhiteSpace c = (let n = (of_char c :: nat) in (9 \<le> n \<and> n \<le> 13) \<or> n = 32 \<or> n = 160)"

definition trim :: "string \<Rightarrow> string" where
  "trim x = rev (dropWhile isWhiteSpace (rev (dropWhile isWhiteSpace x)))"

subsection \<open>\<open>handleSend\<close>\<close>

definition error_text :: string where
  "error_text = ''Sorry, there was an error processing your request.''"

text \<open>The \<open>map\<close> callback of lines 135 to 138.\<close>

definition to_context :: "message \<Rightarrow> content_entry" where
  "to_context msg = \<lparr>parts = [content msg],
     entry_role = (if role msg = ''user'' then ''user'' else ''model'')\<rparr>"

text \<open>Lines 123 to 160, up to the awaited connector call. \<open>None\<close>: the early return of
  line 124, nothing is changed and nothing is sent.\<close>

definition handleSend_submit :: "app \<Rightarrow> (app \<times> activation) option" where
  "handleSend_submit s =
     (let trimmedInput = trim (input s) in
      if trimmedInput = [] then None
      else
        let userMessage = length (store s);
            s1 = s\<lparr>store := store s @ [\<lparr>role = ''user'', content = trimmedInput\<rparr>],
                   messages := messages s @ [userMessage],
                   input := [],
                   isThinking := True\<rparr>;
            contextMessages =
              (if length (conversationHistory s) > 0
               then map to_context (deref s (conversationHistory s)) else [])
              @ [\<lparr>parts = [trimmedInput], entry_role = ''user''\<rparr>]
        in Some (s1, \<lparr>trimmedInput = trimmedInput, userMessage = userMessage,
                      closure_conversationHistory = conversationHistory s,
                      contextMessages = contextMessages,
                      accumulatedResponse = []\<rparr>))"

text \<open>Lines 162 to 164: the stream is available; \<open>aiMessage\<close> is allocated and appended.\<close>

definition handleSend_open :: "app \<times> activation \<Rightarrow> app \<times> activation" where
  "handleSend_open st =
     (case st of (s, t) \<Rightarrow>
        let aiMessage = length (store s) in
        (s\<lparr>store := store s @ [\<lparr>role = ''assistant'', content = []\<rparr>],
           messages := messages s @ [aiMessage]\<rparr>,
         t\<lparr>accumulatedResponse := []\<rparr>))"

text \<open>Lines 167 to 174, one iteration of the loop. The updater copies the array and
  assigns to the \<open>content\<close> of the object in its last slot. On an empty array the slot is
  \<open>undefined\<close> and the assignment raises a TypeError while React renders: \<open>None\<close>.\<close>

definition handleSend_chunk :: "string \<Rightarrow> app \<times> activation \<Rightarrow> (app \<times> activation) option" where
  "handleSend_chunk chunkText st =
     (case st of (s, t) \<Rightarrow>
        let acc = accumulatedResponse t @ chunkText in
        if messages s = [] then None
        else
          let a = last (messages s) in
          Some (s\<lparr>store := (store s)[a := (store s ! a)\<lparr>content := acc\<rparr>]\<rparr>,
                t\<lparr>accumulatedResponse := acc\<rparr>))"

fun handleSend_chunks :: "string list \<Rightarrow> app \<times> activation \<Rightarrow> (app \<times> activation) option" where
  "handleSend_chunks [] st = Some st"
| "handleSend_chunks (c # cs) st =
     (case handleSend_chunk c st of None \<Rightarrow> None | Some st' \<Rightarrow> handleSend_chunks cs st')"

text \<open>Lines 177 to 184: the stream completed.\<close>

definition handleSend_commit :: "app \<times> activation \<Rightarrow> app \<times> activation" where
  "handleSend_commit st =
     (case st of (s, t) \<Rightarrow>
        let reply = length (store s);
            newConversationHistory = closure_conversationHistory t @ [userMessage t, reply]
        in (s\<lparr>store := store s @ [\<lparr>role = ''assistant'', content = accumulatedResponse t\<rparr>],
              conversationHistory := newConversationHistory,
              isThinking := False\<rparr>, t))"

text \<open>Lines 185 to 192: the \<open>catch\<close> block.\<close>

definition handleSend_catch :: "app \<times> activation \<Rightarrow> app \<times> activation" where
  "handleSend_catch st =
     (case st of (s, t) \<Rightarrow>
        let e = length (store s) in
        (s\<lparr>isThinking := False,
           store := store s @ [\<lparr>role = ''assistant'', content = error_text\<rparr>],
           messages := messages s @ [e]\<rparr>, t))"

text \<open>The body of the \<open>try\<close> after the request is built, against one connector behaviour.\<close>

fun handleSend_await :: "connector \<Rightarrow> app \<times> activation \<Rightarrow> (app \<times> activation) option" where
  "handleSend_await Rejects st = Some (handleSend_catch st)"
| "handleSend_await (Streams cs e) st =
     (case handleSend_chunks cs (handleSend_open st) of
        None \<Rightarrow> None
      | Some st' \<Rightarrow>
          Some (case e of Completes \<Rightarrow> handleSend_commit st' | Throws \<Rightarrow> handleSend_catch st'))"

text \<open>One activation of \<open>handleSend\<close> run from its call to its end with no other handler
  in between.\<close>

definition handleSend :: "connector \<Rightarrow> app \<Rightarrow> app option" where
  "handleSend c s =
     (case handleSend_submit s of
        None \<Rightarrow> Some s
      | Some st \<Rightarrow> map_option fst (handleSend_await c st))"

subsection \<open>The handlers of the page\<close>

text \<open>\<open>onChange\<close> of the text area: \<open>setInput(e.target.value)\<close>.\<close>

definition onChange :: "string \<Rightarrow> app \<Rightarrow> app" where
  "onChange v s = s\<lparr>input := v\<rparr>"

text \<open>A handler that calls \<open>handleSend\<close> returns when \<open>handleSend\<close> reaches its first
  await: the state it leaves and the activation that is now pending, if one was started.\<close>

definition call_handleSend :: "app \<Rightarrow> app \<times> activation option" where
  "call_handleSend s =
     (case handleSend_submit s of None \<Rightarrow> (s, None) | Some (s', t) \<Rightarrow> (s', Some t))"

record key_event =
  key :: string
  shiftKey :: bool

text \<open>Lines 196 to 206; \<open>innerWidth\<close> is \<open>window.innerWidth\<close>. A key the handler
  does not prevent is left to the text area, whose new value arrives through
  \<open>onChange\<close>.\<close>

definition handleKeyDown :: "key_event \<Rightarrow> nat \<Rightarrow> app \<Rightarrow> app \<times> activation option" where
  "handleKeyDown e innerWidth s =
     (if key e = ''Enter'' then
        if shiftKey e then (s\<lparr>input := input s @ [CHR 0x0A]\<rparr>, None)
        else if innerWidth > 768 then call_handleSend s
        else (s, None)
      else (s, None))"

text \<open>Lines 264 to 266: the send button has \<open>disabled={isThinking || !input.trim()}\<close>
  and \<open>onClick={handleSend}\<close>; a disabled button delivers no click.\<close>

definition send_button_disabled :: "app \<Rightarrow> bool" where
  "send_button_disabled s = (isThinking s \<or> trim (input s) = [])"

definition button_onClick :: "app \<Rightarrow> app \<times> activation option" where
  "button_onClick s = (if send_button_disabled s then (s, None) else call_handleSend s)"

subsection \<open>The event loop\<close>

text \<open>The page is single-threaded: user events and the resumptions of pending
  \<open>handleSend\<close> activations run one at a time, in any order the user and the connector
  produce them. An activation is named by its position in the list of those started.\<close>

datatype phase = Requested | Streaming | Finished

datatype event =
    Change string
  | KeyDown key_event nat
  | Click
  | Opened nat
  | Chunk nat string
  | Completed nat
  | Thrown nat

record runtime =
  state :: app
  activations :: "(phase \<times> activation) list"

definition runtime_init :: runtime where
  "runtime_init = \<lparr>state = app_init, activations = []\<rparr>"

definition started :: "runtime \<Rightarrow> app \<times> activation option \<Rightarrow> runtime" where
  "started y r =
     (case r of
        (s', None) \<Rightarrow> y\<lparr>state := s'\<rparr>
      | (s', Some t) \<Rightarrow> \<lparr>state = s', activations = activations y @ [(Requested, t)]\<rparr>)"

definition resumed :: "runtime \<Rightarrow> nat \<Rightarrow> phase \<Rightarrow> app \<times> activation \<Rightarrow> runtime" where
  "resumed y i p st = \<lparr>state = fst st, activations = (activations y)[i := (p, snd st)]\<rparr>"

definition in_phase :: "runtime \<Rightarrow> nat \<Rightarrow> phase \<Rightarrow> bool" where
  "in_phase y i p = (i < length (activations y) \<and> fst (activations y ! i) = p)"

definition pending :: "runtime \<Rightarrow> nat \<Rightarrow> app \<times> activation" where
  "pending y i = (state y, snd (activations y ! i))"

text \<open>\<open>None\<close>: the event cannot happen in this state (no such activation, or not at that
  await), or the render raised the TypeError of the chunk updater.\<close>

fun step :: "event \<Rightarrow> runtime \<Rightarrow> runtime option" where
  "step (Change v) y = Some (y\<lparr>state := onChange v (state y)\<rparr>)"
| "step (KeyDown e w) y = Some (started y (handleKeyDown e w (state y)))"
| "step Click y = Some (started y (button_onClick (state y)))"
| "step (Opened i) y =
     (if in_phase y i Requested
      then Some (resumed y i Streaming (handleSend_open (pending y i))) else None)"
| "step (Chunk i c) y =
     (if in_phase y i Streaming
      then map_option (resumed y i Streaming) (handleSend_chunk c (pending y i)) else None)"
| "step (Completed i) y =
     (if in_phase y i Streaming
      then Some (resumed y i Finished (handleSend_commit (pending y i))) else None)"
| "step (Thrown i) y =
     (if in_phase y i Requested \<or> in_phase y i Streaming
      then Some (resumed y i Finished (handleSend_catch (pending y i))) else None)"

fun run :: "event list \<Rightarrow> runtime \<Rightarrow> runtime option" where
  "run [] y = Some y"
| "run (e # es) y = (case step e y of None \<Rightarrow> None | Some y' \<Rightarrow> run es y')"

subsection \<open>Sessions of turns that do not overlap\<close>

text \<open>A turn: the user's text is typed into the text area and \<open>handleSend\<close> runs against
  the connector's behaviour for that request; the next turn starts after it has ended.\<close>

fun session :: "(string \<times> connector) list \<Rightarrow> app \<Rightarrow> app option" where
  "session [] s = Some s"
| "session ((x, c) # ts) s =
     (case handleSend c (onChange x s) of None \<Rightarrow> None | Some s' \<Rightarrow> session ts s')"

text \<open>The reply a connector behaviour ends with, when it completes.\<close>

fun reply_of :: "connector \<Rightarrow> string option" where
  "reply_of (Streams cs Completes) = Some (concat cs)"
| "reply_of (Streams cs Throws) = None"
| "reply_of Rejects = None"

text \<open>A turn is successful when its text is not blank and its stream completes.\<close>

definition successful :: "string \<times> connector \<Rightarrow> bool" where
  "successful tc = (trim (fst tc) \<noteq> [] \<and> reply_of (snd tc) \<noteq> None)"

text \<open>The two history entries of a successful turn.\<close>

definition exchange :: "string \<times> connector \<Rightarrow> message list" where
  "exchange tc = [\<lparr>role = ''user'', content = trim (fst tc)\<rparr>,
     \<lparr>role = ''assistant'', content = the (reply_of (snd tc))\<rparr>]"

subsection \<open>The references of pending activations\<close>

text \<open>The addresses an activation holds (\<open>userMessage\<close> and the captured
  \<open>conversationHistory\<close>) lie below \<open>n\<close>.\<close>

definition refs_below :: "nat \<Rightarrow> activation \<Rightarrow> bool" where
  "refs_below n t = (userMessage t < n \<and> list_all (\<lambda>a. a < n) (closure_conversationHistory t))"

definition runtime_ok :: "runtime \<Rightarrow> bool" where
  "runtime_ok y = (app_ok (state y) \<and>
     list_all (\<lambda>pt. refs_below (length (store (state y))) (snd pt)) (activations y))"

subsection \<open>Schedules and inputs used below\<close>

text \<open>The Enter key without Shift.\<close>

definition enter_key :: key_event where
  "enter_key = \<lparr>key = ''Enter'', shiftKey = False\<rparr>"

text \<open>The events of one turn that no other event interrupts: Enter on a wide window,
  then what the connector does with the request of activation \<open>n\<close>.\<close>

fun schedule :: "nat \<Rightarrow> connector \<Rightarrow> event list" where
  "schedule n Rejects = [KeyDown enter_key 1024, Thrown n]"
| "schedule n (Streams cs e) =
     [KeyDown enter_key 1024, Opened n] @ map (Chunk n) cs
       @ [case e of Completes \<Rightarrow> Completed n | Throws \<Rightarrow> Thrown n]"

text \<open>A first turn \<open>a\<close> is streaming and has delivered \<open>par\<close>; the user has typed
  \<open>b\<close>.\<close>

definition streaming_a :: "event list" where
  "streaming_a = [Change ''a'', KeyDown enter_key 1024, Opened 0, Chunk 0 ''par'', Change ''b'']"

text \<open>Enter is pressed then; the first stream delivers one more chunk and throws; the
  second request is answered with \<open>ok\<close>.\<close>

definition overlap :: "event list" where
  "overlap = streaming_a @ [KeyDown enter_key 1024, Chunk 0 ''tial'', Thrown 0, Opened 1, Chunk 1 ''ok'', Completed 1]"

text \<open>One successful turn \<open>hello\<close>, answered \<open>Hi there\<close>.\<close>

definition after_hello :: "event list" where
  "after_hello = [Change ''hello'', KeyDown enter_key 1024, Opened 0, Chunk 0 ''Hi'',
     Chunk 0 '' there'', Completed 0]"

text \<open>A second turn whose stream throws after \<open>p\<close> and \<open>ar\<close>, with typing in between.\<close>

definition failing_stream :: "event list" where
  "failing_stream = [Opened 1, Chunk 1 ''p'', Change ''again'', Chunk 1 ''ar'', Thrown 1]"

text \<open>A second turn whose stream completes after \<open>y\<close> and \<open>o\<close>, with typing and a
  click on the disabled button in between.\<close>

definition completing_stream :: "event list" where
  "completing_stream = [Change ''x'', Opened 1, Chunk 1 ''y'', Click, Chunk 1 ''o'', Completed 1]"

text \<open>Two turns, the second submitted before the first stream opens; both streams
  complete; then a third text is submitted.\<close>

definition two_overlapping :: "event list" where
  "two_overlapping = [Change ''a'', KeyDown enter_key 1024, Change ''b'', KeyDown enter_key 1024,
     Opened 0, Chunk 0 ''x'', Completed 0, Opened 1, Chunk 1 ''y'', Completed 1,
     Change ''c'', KeyDown enter_key 1024]"

subsection \<open>Reading a turn off a run of the event loop\<close>

text \<open>No activation is pending.\<close>

definition idle :: "runtime \<Rightarrow> bool" where
  "idle y = list_all (\<lambda>pt. fst pt = Finished) (activations y)"

text \<open>The events of the user, as opposed to the resumptions of an activation.\<close>

fun is_user :: "event \<Rightarrow> bool" where
  "is_user (Change v) = True"
| "is_user (KeyDown k w) = True"
| "is_user Click = True"
| "is_user (Opened i) = False"
| "is_user (Chunk i c) = False"
| "is_user (Completed i) = False"
| "is_user (Thrown i) = False"

text \<open>What the connector did for activation \<open>n\<close> in the events \<open>es\<close>: the chunks it
  delivered, in order; whether the stream completed; whether it opened at all.\<close>

fun chunks_of :: "nat \<Rightarrow> event list \<Rightarrow> string list" where
  "chunks_of n [] = []"
| "chunks_of n (Chunk i c # es) = (if i = n then c # chunks_of n es else chunks_of n es)"
| "chunks_of n (e # es) = chunks_of n es"

definition ending :: "nat \<Rightarrow> event list \<Rightarrow> stream_end" where
  "ending n es = (if Completed n \<in> set es then Completes else Throws)"

definition behaviour :: "nat \<Rightarrow> event list \<Rightarrow> connector" where
  "behaviour n es =
     (if Opened n \<in> set es then Streams (chunks_of n es) (ending n es) else Rejects)"

text \<open>Two states with the same arrays, store and \<open>isThinking\<close>; the text area may
  differ.\<close>

definition eq_but_input :: "app \<Rightarrow> app \<Rightarrow> bool" where
  "eq_but_input a b = (store a = store b \<and> messages a = messages b \<and>
     isThinking a = isThinking b \<and> conversationHistory a = conversationHistory b)"

text \<open>The end of the \<open>try\<close> block or the \<open>catch\<close> block, by how the stream ended.\<close>

definition finish :: "stream_end \<Rightarrow> app \<times> activation \<Rightarrow> app \<times> activation" where
  "finish e st = (case e of Completes \<Rightarrow> handleSend_commit st | Throws \<Rightarrow> handleSend_catch st)"

section \<open>What one activation of \<open>handleSend\<close> computes\<close>

subsection \<open>The streaming loop\<close>

lemma chunk_explicit:
  assumes "messages s = ms @ [length h]" and "store s = h @ [m]"
  shows "handleSend_chunk c (s, t) =
    Some (s\<lparr>store := h @ [m\<lparr>content := accumulatedResponse t @ c\<rparr>]\<rparr>,
          t\<lparr>accumulatedResponse := accumulatedResponse t @ c\<rparr>)"
  using assms by (simp add: handleSend_chunk_def Let_def)

lemma chunks_explicit:
  assumes "messages s = ms @ [length h]" and "store s = h @ [m]"
    and "content m = accumulatedResponse t"
  shows "handleSend_chunks cs (s, t) =
    Some (s\<lparr>store := h @ [m\<lparr>content := accumulatedResponse t @ concat cs\<rparr>]\<rparr>,
          t\<lparr>accumulatedResponse := accumulatedResponse t @ concat cs\<rparr>)"
  using assms
proof (induction cs arbitrary: s t m)
  case Nil
  then show ?case by simp
next
  case (Cons c cs)
  let ?m = "m\<lparr>content := accumulatedResponse t @ c\<rparr>"
  let ?s = "s\<lparr>store := h @ [?m]\<rparr>"
  let ?t = "t\<lparr>accumulatedResponse := accumulatedResponse t @ c\<rparr>"
  have first: "handleSend_chunk c (s, t) = Some (?s, ?t)"
    using Cons.prems by (simp add: chunk_explicit)
  have "handleSend_chunks cs (?s, ?t) =
    Some (?s\<lparr>store := h @ [?m\<lparr>content := accumulatedResponse ?t @ concat cs\<rparr>]\<rparr>,
          ?t\<lparr>accumulatedResponse := accumulatedResponse ?t @ concat cs\<rparr>)"
    by (rule Cons.IH) (use Cons.prems in simp_all)
  with first show ?case by simp
qed

lemma open_chunks_explicit:
  "handleSend_chunks cs (handleSend_open (s, t)) =
    Some (s\<lparr>store := store s @ [\<lparr>role = ''assistant'', content = concat cs\<rparr>],
            messages := messages s @ [length (store s)]\<rparr>,
          t\<lparr>accumulatedResponse := concat cs\<rparr>)"
proof -
  let ?s = "s\<lparr>store := store s @ [\<lparr>role = ''assistant'', content = []\<rparr>],
            messages := messages s @ [length (store s)]\<rparr>"
  let ?t = "t\<lparr>accumulatedResponse := []\<rparr>"
  have "handleSend_chunks cs (?s, ?t) =
    Some (?s\<lparr>store := store s @
            [\<lparr>role = ''assistant'', content = []\<rparr>
               \<lparr>content := accumulatedResponse ?t @ concat cs\<rparr>]\<rparr>,
          ?t\<lparr>accumulatedResponse := accumulatedResponse ?t @ concat cs\<rparr>)"
    by (rule chunks_explicit[where ms = "messages s"]) simp_all
  then show ?thesis by (simp add: handleSend_open_def Let_def)
qed

subsection \<open>The state a whole activation ends in\<close>

lemma submit_explicit:
  assumes "trim (input s) \<noteq> []"
  shows "handleSend_submit s = Some
    (s\<lparr>store := store s @ [\<lparr>role = ''user'', content = trim (input s)\<rparr>],
       messages := messages s @ [length (store s)], input := [], isThinking := True\<rparr>,
     \<lparr>trimmedInput = trim (input s), userMessage = length (store s),
      closure_conversationHistory = conversationHistory s,
      contextMessages = map to_context (history s)
        @ [\<lparr>parts = [trim (input s)], entry_role = ''user''\<rparr>],
      accumulatedResponse = []\<rparr>)"
  using assms
  by (cases "conversationHistory s")
     (simp_all add: handleSend_submit_def Let_def history_def deref_def)

lemma handleSend_completes_explicit:
  assumes "trim (input s) \<noteq> []"
  shows "handleSend (Streams cs Completes) s = Some
    (s\<lparr>store := store s @ [\<lparr>role = ''user'', content = trim (input s)\<rparr>,
          \<lparr>role = ''assistant'', content = concat cs\<rparr>,
          \<lparr>role = ''assistant'', content = concat cs\<rparr>],
       messages := messages s @ [length (store s), Suc (length (store s))],
       input := [], isThinking := False,
       conversationHistory := conversationHistory s
         @ [length (store s), Suc (Suc (length (store s)))]\<rparr>)"
  by (simp add: handleSend_def submit_explicit[OF assms] open_chunks_explicit
      handleSend_commit_def Let_def)

lemma handleSend_throws_explicit:
  assumes "trim (input s) \<noteq> []"
  shows "handleSend (Streams cs Throws) s = Some
    (s\<lparr>store := store s @ [\<lparr>role = ''user'', content = trim (input s)\<rparr>,
          \<lparr>role = ''assistant'', content = concat cs\<rparr>,
          \<lparr>role = ''assistant'', content = error_text\<rparr>],
       messages := messages s
         @ [length (store s), Suc (length (store s)), Suc (Suc (length (store s)))],
       input := [], isThinking := False\<rparr>)"
  by (simp add: handleSend_def submit_explicit[OF assms] open_chunks_explicit
      handleSend_catch_def Let_def)

lemma handleSend_rejects_explicit:
  assumes "trim (input s) \<noteq> []"
  shows "handleSend Rejects s = Some
    (s\<lparr>store := store s @ [\<lparr>role = ''user'', content = trim (input s)\<rparr>,
          \<lparr>role = ''assistant'', content = error_text\<rparr>],
       messages := messages s @ [length (store s), Suc (length (store s))],
       input := [], isThinking := False\<rparr>)"
  by (simp add: handleSend_def submit_explicit[OF assms] handleSend_catch_def Let_def)

lemma handleSend_blank: "trim (input s) = [] \<Longrightarrow> handleSend c s = Some s"
  by (simp add: handleSend_def handleSend_submit_def)

lemma handleSend_total: "\<exists>s'. handleSend c s = Some s'"
proof (cases "handleSend_submit s")
  case None
  then show ?thesis by (simp add: handleSend_def)
next
  case (Some st)
  obtain s0 t0 where st: "st = (s0, t0)" by (cases st)
  show ?thesis
  proof (cases c)
    case Rejects
    with Some show ?thesis by (simp add: handleSend_def)
  next
    case (Streams cs e)
    with Some st show ?thesis by (simp add: handleSend_def open_chunks_explicit)
  qed
qed

subsection \<open>Reading the arrays through the store\<close>

lemma nth_append_old:
  "list_all (\<lambda>a. a < length h) as \<Longrightarrow> map ((!) (h @ xs)) as = map ((!) h) as"
  by (induction as) (simp_all add: nth_append)

lemma nth_new1: "(h @ a # b # r) ! Suc (length h) = b"
  by (simp add: nth_append)

lemma nth_new2: "(h @ a # b # c # r) ! Suc (Suc (length h)) = c"
  by (simp add: nth_append)

lemma app_ok_init: "app_ok app_init"
  by (simp add: app_ok_def app_init_def)

lemma app_ok_onChange: "app_ok (onChange v s) = app_ok s"
  by (simp add: app_ok_def onChange_def)

lemma history_onChange: "history (onChange v s) = history s"
  by (simp add: history_def deref_def onChange_def)


lemma turn_completes:
  assumes "app_ok s" and "trim (input s) \<noteq> []"
  shows "\<exists>s'. handleSend (Streams cs Completes) s = Some s' \<and> app_ok s' \<and>
     transcript s' = transcript s @ [\<lparr>role = ''user'', content = trim (input s)\<rparr>,
        \<lparr>role = ''assistant'', content = concat cs\<rparr>] \<and>
     history s' = history s @ [\<lparr>role = ''user'', content = trim (input s)\<rparr>,
        \<lparr>role = ''assistant'', content = concat cs\<rparr>] \<and>
     input s' = [] \<and> isThinking s' = False"
proof -
  let ?s' = "s\<lparr>store := store s @ [\<lparr>role = ''user'', content = trim (input s)\<rparr>,
          \<lparr>role = ''assistant'', content = concat cs\<rparr>,
          \<lparr>role = ''assistant'', content = concat cs\<rparr>],
       messages := messages s @ [length (store s), Suc (length (store s))],
       input := [], isThinking := False,
       conversationHistory := conversationHistory s
         @ [length (store s), Suc (Suc (length (store s)))]\<rparr>"
  have run: "handleSend (Streams cs Completes) s = Some ?s'"
    by (rule handleSend_completes_explicit[OF assms(2)])
  have ok: "app_ok ?s'"
    using assms(1) by (auto simp: app_ok_def list_all_iff)
  have tr: "transcript ?s' = transcript s @ [\<lparr>role = ''user'', content = trim (input s)\<rparr>,
        \<lparr>role = ''assistant'', content = concat cs\<rparr>]"
    using assms(1)
    by (simp add: transcript_def deref_def app_ok_def nth_append_old nth_new1)
  have hi: "history ?s' = history s @ [\<lparr>role = ''user'', content = trim (input s)\<rparr>,
        \<lparr>role = ''assistant'', content = concat cs\<rparr>]"
    using assms(1)
    by (simp add: history_def deref_def app_ok_def nth_append_old nth_new2)
  show ?thesis using run ok tr hi by simp
qed

lemma turn_throws:
  assumes "app_ok s" and "trim (input s) \<noteq> []"
  shows "\<exists>s'. handleSend (Streams cs Throws) s = Some s' \<and> app_ok s' \<and>
     transcript s' = transcript s @ [\<lparr>role = ''user'', content = trim (input s)\<rparr>,
        \<lparr>role = ''assistant'', content = concat cs\<rparr>,
        \<lparr>role = ''assistant'', content = error_text\<rparr>] \<and>
     history s' = history s \<and> conversationHistory s' = conversationHistory s \<and>
     input s' = [] \<and> isThinking s' = False"
proof -
  let ?s' = "s\<lparr>store := store s @ [\<lparr>role = ''user'', content = trim (input s)\<rparr>,
          \<lparr>role = ''assistant'', content = concat cs\<rparr>,
          \<lparr>role = ''assistant'', content = error_text\<rparr>],
       messages := messages s
         @ [length (store s), Suc (length (store s)), Suc (Suc (length (store s)))],
       input := [], isThinking := False\<rparr>"
  have run: "handleSend (Streams cs Throws) s = Some ?s'"
    by (rule handleSend_throws_explicit[OF assms(2)])
  have ok: "app_ok ?s'"
    using assms(1) by (auto simp: app_ok_def list_all_iff)
  have tr: "transcript ?s' = transcript s @ [\<lparr>role = ''user'', content = trim (input s)\<rparr>,
        \<lparr>role = ''assistant'', content = concat cs\<rparr>,
        \<lparr>role = ''assistant'', content = error_text\<rparr>]"
    using assms(1)
    by (simp add: transcript_def deref_def app_ok_def nth_append_old nth_new1 nth_new2)
  have hi: "history ?s' = history s"
    using assms(1) by (simp add: history_def deref_def app_ok_def nth_append_old)
  show ?thesis using run ok tr hi by simp
qed

lemma turn_rejects:
  assumes "app_ok s" and "trim (input s) \<noteq> []"
  shows "\<exists>s'. handleSend Rejects s = Some s' \<and> app_ok s' \<and>
     transcript s' = transcript s @ [\<lparr>role = ''user'', content = trim (input s)\<rparr>,
        \<lparr>role = ''assistant'', content = error_text\<rparr>] \<and>
     history s' = history s \<and> conversationHistory s' = conversationHistory s \<and>
     input s' = [] \<and> isThinking s' = False"
proof -
  let ?s' = "s\<lparr>store := store s @ [\<lparr>role = ''user'', content = trim (input s)\<rparr>,
          \<lparr>role = ''assistant'', content = error_text\<rparr>],
       messages := messages s @ [length (store s), Suc (length (store s))],
       input := [], isThinking := False\<rparr>"
  have run: "handleSend Rejects s = Some ?s'"
    by (rule handleSend_rejects_explicit[OF assms(2)])
  have ok: "app_ok ?s'"
    using assms(1) by (auto simp: app_ok_def list_all_iff)
  have tr: "transcript ?s' = transcript s @ [\<lparr>role = ''user'', content = trim (input s)\<rparr>,
        \<lparr>role = ''assistant'', content = error_text\<rparr>]"
    using assms(1)
    by (simp add: transcript_def deref_def app_ok_def nth_append_old nth_new1)
  have hi: "history ?s' = history s"
    using assms(1) by (simp add: history_def deref_def app_ok_def nth_append_old)
  show ?thesis using run ok tr hi by simp
qed

lemma submit_state:
  assumes "app_ok s" and "trim (input s) \<noteq> []"
  shows "\<exists>s0 t0. handleSend_submit s = Some (s0, t0) \<and> app_ok s0 \<and>
     transcript s0 = transcript s @ [\<lparr>role = ''user'', content = trim (input s)\<rparr>] \<and>
     history s0 = history s \<and> isThinking s0 = True \<and> trimmedInput t0 = trim (input s)"
proof -
  let ?s0 = "s\<lparr>store := store s @ [\<lparr>role = ''user'', content = trim (input s)\<rparr>],
       messages := messages s @ [length (store s)], input := [], isThinking := True\<rparr>"
  have ok: "app_ok ?s0"
    using assms(1) by (auto simp: app_ok_def list_all_iff)
  have tr: "transcript ?s0 = transcript s @ [\<lparr>role = ''user'', content = trim (input s)\<rparr>]"
    using assms(1) by (simp add: transcript_def deref_def app_ok_def nth_append_old)
  have hi: "history ?s0 = history s"
    using assms(1) by (simp add: history_def deref_def app_ok_def nth_append_old)
  show ?thesis using submit_explicit[OF assms(2)] ok tr hi by simp
qed

lemma stream_state:
  assumes "app_ok s"
  shows "\<exists>s1 t1. handleSend_chunks pre (handleSend_open (s, t)) = Some (s1, t1) \<and>
     app_ok s1 \<and> messages s1 \<noteq> [] \<and> accumulatedResponse t1 = concat pre \<and>
     transcript s1 = transcript s @ [\<lparr>role = ''assistant'', content = concat pre\<rparr>] \<and>
     history s1 = history s"
proof -
  let ?s1 = "s\<lparr>store := store s @ [\<lparr>role = ''assistant'', content = concat pre\<rparr>],
            messages := messages s @ [length (store s)]\<rparr>"
  have run: "handleSend_chunks pre (handleSend_open (s, t)) =
      Some (?s1, t\<lparr>accumulatedResponse := concat pre\<rparr>)"
    by (rule open_chunks_explicit)
  have ok: "app_ok ?s1"
    using assms by (auto simp: app_ok_def list_all_iff)
  have tr: "transcript ?s1 = transcript s @ [\<lparr>role = ''assistant'', content = concat pre\<rparr>]"
    using assms by (simp add: transcript_def deref_def app_ok_def nth_append_old)
  have hi: "history ?s1 = history s"
    using assms by (simp add: history_def deref_def app_ok_def nth_append_old)
  show ?thesis using run ok tr hi by simp
qed


subsection \<open>One chunk\<close>

lemma chunk_frame:
  assumes "app_ok s" and "messages s \<noteq> []"
  shows "\<exists>s' t'. handleSend_chunk c (s, t) = Some (s', t') \<and>
     butlast (transcript s') = butlast (transcript s) \<and>
     last (transcript s') = (last (transcript s))\<lparr>content := accumulatedResponse t @ c\<rparr> \<and>
     length (transcript s') = length (transcript s) \<and>
     accumulatedResponse t' = accumulatedResponse t @ c"
proof -
  let ?a = "last (messages s)"
  let ?s' = "s\<lparr>store := (store s)[?a := (store s ! ?a)\<lparr>content := accumulatedResponse t @ c\<rparr>]\<rparr>"
  have run: "handleSend_chunk c (s, t) = Some (?s', t\<lparr>accumulatedResponse := accumulatedResponse t @ c\<rparr>)"
    using assms(2) by (simp add: handleSend_chunk_def Let_def)
  have bound: "?a < length (store s)"
    using assms by (simp add: app_ok_def list_all_iff)
  have notin: "?a \<notin> set (butlast (messages s))"
    using assms by (metis app_ok_def append_butlast_last_id distinct_append disjoint_iff list.set_intros(1) distinct.simps(2))
  have others: "store ?s' ! b = store s ! b" if "b \<in> set (butlast (messages s))" for b
  proof -
    from that notin have "?a \<noteq> b" by auto
    then show ?thesis by simp
  qed
  have "butlast (transcript ?s') = map ((!) (store ?s')) (butlast (messages s))"
    by (simp add: transcript_def deref_def map_butlast)
  also have "\<dots> = map ((!) (store s)) (butlast (messages s))"
    by (intro map_cong refl others)
  also have "\<dots> = butlast (transcript s)"
    by (simp add: transcript_def deref_def map_butlast)
  finally have bl: "butlast (transcript ?s') = butlast (transcript s)" .
  have la: "last (transcript ?s') = (last (transcript s))\<lparr>content := accumulatedResponse t @ c\<rparr>"
    using assms(2) bound by (simp add: transcript_def deref_def last_map)
  have len: "length (transcript ?s') = length (transcript s)"
    by (simp add: transcript_def deref_def)
  show ?thesis using run bl la len by simp
qed

subsection \<open>\<open>trim\<close>\<close>

lemma trim_decomp:
  "\<exists>l r. x = l @ trim x @ r \<and> list_all isWhiteSpace l \<and> list_all isWhiteSpace r"
proof -
  let ?y = "dropWhile isWhiteSpace x"
  let ?l = "takeWhile isWhiteSpace x"
  let ?r = "rev (takeWhile isWhiteSpace (rev ?y))"
  have "rev zs = rev (dropWhile isWhiteSpace zs) @ rev (takeWhile isWhiteSpace zs)" for zs
    by (metis rev_append takeWhile_dropWhile_id)
  from this[of "rev ?y"] have y: "?y = trim x @ ?r"
    by (simp add: trim_def)
  have "x = ?l @ ?y" by simp
  with y have "x = ?l @ trim x @ ?r" by simp
  moreover have "list_all isWhiteSpace ?l"
    by (simp add: list_all_iff) (meson set_takeWhileD)
  moreover have "list_all isWhiteSpace ?r"
    by (simp add: list_all_iff) (meson set_takeWhileD)
  ultimately show ?thesis by blast
qed

lemma trim_ends:
  assumes "trim x \<noteq> []"
  shows "\<not> isWhiteSpace (hd (trim x)) \<and> \<not> isWhiteSpace (last (trim x))"
proof -
  let ?y = "dropWhile isWhiteSpace x"
  let ?z = "dropWhile isWhiteSpace (rev ?y)"
  have z: "?z \<noteq> []" using assms by (simp add: trim_def)
  then have "rev ?y \<noteq> []" by (metis dropWhile.simps(1))
  then have y: "?y \<noteq> []" by simp
  have "last (trim x) = hd ?z" using z by (simp add: trim_def last_rev)
  moreover have "\<not> isWhiteSpace (hd ?z)" using z by (rule hd_dropWhile)
  ultimately have l: "\<not> isWhiteSpace (last (trim x))" by simp
  have "hd (trim x) = last ?z" using z by (simp add: trim_def hd_rev)
  also have "\<dots> = last (rev ?y)"
    using z by (metis last_appendR takeWhile_dropWhile_id)
  also have "\<dots> = hd ?y" using y by (simp add: last_rev)
  finally have "hd (trim x) = hd ?y" .
  moreover have "\<not> isWhiteSpace (hd ?y)" using y by (rule hd_dropWhile)
  ultimately show ?thesis using l by simp
qed

subsection \<open>Sessions\<close>

lemma input_onChange: "input (onChange v s) = v"
  by (simp add: onChange_def)

lemma turn_history:
  assumes "app_ok s"
  shows "\<exists>s'. handleSend c (onChange x s) = Some s' \<and> app_ok s' \<and>
     history s' = history s @ (if successful (x, c) then exchange (x, c) else [])"
proof (cases "trim x = []")
  case True
  then have "handleSend c (onChange x s) = Some (onChange x s)"
    by (simp add: handleSend_blank input_onChange)
  with True assms show ?thesis
    by (simp add: successful_def app_ok_onChange history_onChange)
next
  case False
  have ok: "app_ok (onChange x s)" using assms by (simp add: app_ok_onChange)
  have nb: "trim (input (onChange x s)) \<noteq> []" using False by (simp add: input_onChange)
  show ?thesis
  proof (cases c)
    case Rejects
    from turn_rejects[OF ok nb] obtain s' where
      "handleSend Rejects (onChange x s) = Some s'" "app_ok s'" "history s' = history (onChange x s)"
      by blast
    with Rejects show ?thesis
      by (simp add: successful_def history_onChange)
  next
    case (Streams cs e)
    show ?thesis
    proof (cases e)
      case Completes
      from turn_completes[OF ok nb, of cs] obtain s' where
        "handleSend (Streams cs Completes) (onChange x s) = Some s'" "app_ok s'"
        "history s' = history (onChange x s) @ [\<lparr>role = ''user'', content = trim (input (onChange x s))\<rparr>,
            \<lparr>role = ''assistant'', content = concat cs\<rparr>]"
        by blast
      with Streams Completes False show ?thesis
        by (simp add: successful_def exchange_def history_onChange input_onChange)
    next
      case Throws
      from turn_throws[OF ok nb, of cs] obtain s' where
        "handleSend (Streams cs Throws) (onChange x s) = Some s'" "app_ok s'"
        "history s' = history (onChange x s)"
        by blast
      with Streams Throws show ?thesis
        by (simp add: successful_def history_onChange)
    qed
  qed
qed

lemma session_history:
  assumes "app_ok s"
  shows "\<exists>s'. session ts s = Some s' \<and> app_ok s' \<and>
     history s' = history s @ concat (map exchange (filter successful ts))"
  using assms
proof (induction ts arbitrary: s)
  case Nil
  then show ?case by simp
next
  case (Cons tc ts)
  obtain x c where tc: "tc = (x, c)" by (cases tc)
  from turn_history[OF Cons.prems, of c x] obtain s1 where
    one: "handleSend c (onChange x s) = Some s1" and ok1: "app_ok s1" and
    h1: "history s1 = history s @ (if successful (x, c) then exchange (x, c) else [])"
    by blast
  from Cons.IH[OF ok1] obtain s' where
    rest: "session ts s1 = Some s'" and ok': "app_ok s'" and
    h': "history s' = history s1 @ concat (map exchange (filter successful ts))"
    by blast
  have "session (tc # ts) s = Some s'" using tc one rest by simp
  moreover have "history s' = history s @ concat (map exchange (filter successful (tc # ts)))"
    using tc h1 h' by simp
  ultimately show ?case using ok' by blast
qed

lemma history_init: "history app_init = []"
  by (simp add: history_def deref_def app_init_def)

lemma to_context_exchange:
  "successful tc \<Longrightarrow> map to_context (exchange tc) =
     [\<lparr>parts = [trim (fst tc)], entry_role = ''user''\<rparr>,
      \<lparr>parts = [the (reply_of (snd tc))], entry_role = ''model''\<rparr>]"
  by (simp add: exchange_def to_context_def)

lemma to_context_exchanges:
  "map to_context (concat (map exchange (filter successful ts))) =
     concat (map (\<lambda>tc. [\<lparr>parts = [trim (fst tc)], entry_role = ''user''\<rparr>,
         \<lparr>parts = [the (reply_of (snd tc))], entry_role = ''model''\<rparr>]) (filter successful ts))"
  by (induction ts) (simp_all add: to_context_exchange)

lemma length_pairs: "length (concat (map (\<lambda>x. [f x, g x]) xs)) = 2 * length xs"
  by (induction xs) simp_all

section \<open>The event loop\<close>

subsection \<open>Every reachable state is well formed\<close>

lemma refs_below_mono: "refs_below n t \<Longrightarrow> n \<le> m \<Longrightarrow> refs_below m t"
  by (auto simp: refs_below_def list_all_iff)

lemma submit_ok:
  assumes "app_ok s" and "handleSend_submit s = Some (s', t)"
  shows "app_ok s' \<and> length (store s) \<le> length (store s') \<and> refs_below (length (store s')) t"
proof -
  from assms(2) have nb: "trim (input s) \<noteq> []"
    by (auto simp: handleSend_submit_def Let_def split: if_splits)
  from assms(2) submit_explicit[OF nb] have
    s': "s' = s\<lparr>store := store s @ [\<lparr>role = ''user'', content = trim (input s)\<rparr>],
       messages := messages s @ [length (store s)], input := [], isThinking := True\<rparr>" and
    t: "userMessage t = length (store s)" "closure_conversationHistory t = conversationHistory s"
    by auto
  have "app_ok s'" using assms(1) by (auto simp: s' app_ok_def list_all_iff)
  moreover have "refs_below (length (store s')) t"
    using assms(1) by (auto simp: s' t app_ok_def refs_below_def list_all_iff)
  ultimately show ?thesis by (simp add: s')
qed

lemma open_ok:
  assumes "app_ok s" and "refs_below (length (store s)) t" and "handleSend_open (s, t) = (s', t')"
  shows "app_ok s' \<and> length (store s) \<le> length (store s') \<and> refs_below (length (store s')) t'"
proof -
  from assms(3) have
    s': "s' = s\<lparr>store := store s @ [\<lparr>role = ''assistant'', content = []\<rparr>],
       messages := messages s @ [length (store s)]\<rparr>" and
    t': "t' = t\<lparr>accumulatedResponse := []\<rparr>"
    by (auto simp: handleSend_open_def Let_def)
  have "app_ok s'" using assms(1) by (auto simp: s' app_ok_def list_all_iff)
  moreover have "refs_below (length (store s')) t'"
    using assms(2) by (auto simp: s' t' refs_below_def list_all_iff)
  ultimately show ?thesis by (simp add: s')
qed

lemma chunk_ok:
  assumes "app_ok s" and "refs_below (length (store s)) t"
    and "handleSend_chunk c (s, t) = Some (s', t')"
  shows "app_ok s' \<and> length (store s) \<le> length (store s') \<and> refs_below (length (store s')) t'"
proof -
  from assms(3) have
    s': "s' = s\<lparr>store := (store s)[last (messages s) :=
        (store s ! last (messages s))\<lparr>content := accumulatedResponse t @ c\<rparr>]\<rparr>" and
    t': "t' = t\<lparr>accumulatedResponse := accumulatedResponse t @ c\<rparr>"
    by (auto simp: handleSend_chunk_def Let_def split: if_splits)
  have "app_ok s'" using assms(1) by (simp add: s' app_ok_def)
  moreover have "refs_below (length (store s')) t'"
    using assms(2) by (simp add: s' t' refs_below_def)
  ultimately show ?thesis by (simp add: s')
qed

lemma commit_ok:
  assumes "app_ok s" and "refs_below (length (store s)) t" and "handleSend_commit (s, t) = (s', t')"
  shows "app_ok s' \<and> length (store s) \<le> length (store s') \<and> refs_below (length (store s')) t'"
proof -
  from assms(3) have
    s': "s' = s\<lparr>store := store s @ [\<lparr>role = ''assistant'', content = accumulatedResponse t\<rparr>],
       conversationHistory := closure_conversationHistory t @ [userMessage t, length (store s)],
       isThinking := False\<rparr>" and
    t': "t' = t"
    by (auto simp: handleSend_commit_def Let_def)
  have "app_ok s'" using assms(1,2) by (auto simp: s' app_ok_def refs_below_def list_all_iff)
  moreover have "refs_below (length (store s')) t'"
    using assms(2) by (auto simp: s' t' refs_below_def list_all_iff)
  ultimately show ?thesis by (simp add: s')
qed

lemma catch_ok:
  assumes "app_ok s" and "refs_below (length (store s)) t" and "handleSend_catch (s, t) = (s', t')"
  shows "app_ok s' \<and> length (store s) \<le> length (store s') \<and> refs_below (length (store s')) t'"
proof -
  from assms(3) have
    s': "s' = s\<lparr>isThinking := False,
       store := store s @ [\<lparr>role = ''assistant'', content = error_text\<rparr>],
       messages := messages s @ [length (store s)]\<rparr>" and
    t': "t' = t"
    by (auto simp: handleSend_catch_def Let_def)
  have "app_ok s'" using assms(1) by (auto simp: s' app_ok_def list_all_iff)
  moreover have "refs_below (length (store s')) t'"
    using assms(2) by (auto simp: s' t' refs_below_def list_all_iff)
  ultimately show ?thesis by (simp add: s')
qed

lemma started_ok:
  assumes "runtime_ok y" and "r = (state y, None) \<or> r = (state y\<lparr>input := v\<rparr>, None) \<or> r = call_handleSend (state y)"
  shows "runtime_ok (started y r)"
proof -
  from assms(2) consider "r = (state y, None)" | "r = (state y\<lparr>input := v\<rparr>, None)"
    | s' t where "handleSend_submit (state y) = Some (s', t)" "r = (s', Some t)"
    by (auto simp: call_handleSend_def split: option.splits)
  then show ?thesis
  proof cases
    case 1
    with assms(1) show ?thesis by (simp add: started_def runtime_ok_def)
  next
    case 2
    with assms(1) show ?thesis by (simp add: started_def runtime_ok_def app_ok_def)
  next
    case 3
    from assms(1) have ok: "app_ok (state y)" by (simp add: runtime_ok_def)
    from submit_ok[OF ok 3(1)] have
      "app_ok s'" "length (store (state y)) \<le> length (store s')" "refs_below (length (store s')) t"
      by simp_all
    with assms(1) 3(2) show ?thesis
      by (auto simp: started_def runtime_ok_def list_all_iff intro: refs_below_mono)
  qed
qed

lemma resumed_ok:
  assumes "runtime_ok y" and "i < length (activations y)"
    and "app_ok (fst st) \<and> length (store (state y)) \<le> length (store (fst st)) \<and>
         refs_below (length (store (fst st))) (snd st)"
  shows "runtime_ok (resumed y i p st)"
proof -
  have "refs_below (length (store (fst st))) (snd pt)"
    if "pt \<in> set ((activations y)[i := (p, snd st)])" for pt
  proof -
    from that have "pt = (p, snd st) \<or> pt \<in> set (activations y)"
      using set_update_subset_insert by fastforce
    with assms(1,3) show ?thesis
      by (auto simp: runtime_ok_def list_all_iff intro: refs_below_mono)
  qed
  with assms(3) show ?thesis
    by (simp add: resumed_def runtime_ok_def list_all_iff)
qed

lemma pending_refs:
  "runtime_ok y \<Longrightarrow> i < length (activations y) \<Longrightarrow>
     app_ok (fst (pending y i)) \<and> refs_below (length (store (fst (pending y i)))) (snd (pending y i))"
  by (simp add: runtime_ok_def pending_def list_all_length)

lemma step_ok:
  assumes "runtime_ok y" and "step e y = Some y'"
  shows "runtime_ok y'"
proof (cases e)
  case (Change v)
  with assms(2) have y': "y' = y\<lparr>state := onChange v (state y)\<rparr>" by simp
  from assms(1) show ?thesis
    by (simp add: y' runtime_ok_def app_ok_onChange) (simp add: onChange_def)
next
  case (KeyDown k w)
  have "runtime_ok (started y (handleKeyDown k w (state y)))"
    by (rule started_ok[OF assms(1), where v = "input (state y) @ [CHR 0x0A]"])
       (simp add: handleKeyDown_def)
  with KeyDown assms(2) show ?thesis by simp
next
  case Click
  have "runtime_ok (started y (button_onClick (state y)))"
    by (rule started_ok[OF assms(1), where v = "[]"]) (simp add: button_onClick_def)
  with Click assms(2) show ?thesis by simp
next
  case (Opened i)
  with assms(2) have i: "i < length (activations y)" and
    y': "y' = resumed y i Streaming (handleSend_open (pending y i))"
    by (auto simp: in_phase_def split: if_splits)
  obtain s t where p: "pending y i = (s, t)" by (cases "pending y i")
  obtain s' t' where o: "handleSend_open (s, t) = (s', t')" by (cases "handleSend_open (s, t)")
  from pending_refs[OF assms(1) i] p have "app_ok s" "refs_below (length (store s)) t" by simp_all
  from open_ok[OF this o] p o show ?thesis
    unfolding y' by (intro resumed_ok[OF assms(1) i]) (simp add: pending_def)
next
  case (Chunk i c)
  with assms(2) obtain st' where i: "i < length (activations y)" and
    c: "handleSend_chunk c (pending y i) = Some st'" and
    y': "y' = resumed y i Streaming st'"
    by (auto simp: in_phase_def split: if_splits)
  obtain s t where p: "pending y i = (s, t)" by (cases "pending y i")
  obtain s' t' where st': "st' = (s', t')" by (cases st')
  from pending_refs[OF assms(1) i] p have "app_ok s" "refs_below (length (store s)) t" by simp_all
  from chunk_ok[OF this] c p st' show ?thesis
    unfolding y' by (intro resumed_ok[OF assms(1) i]) (simp add: pending_def)
next
  case (Completed i)
  with assms(2) have i: "i < length (activations y)" and
    y': "y' = resumed y i Finished (handleSend_commit (pending y i))"
    by (auto simp: in_phase_def split: if_splits)
  obtain s t where p: "pending y i = (s, t)" by (cases "pending y i")
  obtain s' t' where o: "handleSend_commit (s, t) = (s', t')" by (cases "handleSend_commit (s, t)")
  from pending_refs[OF assms(1) i] p have "app_ok s" "refs_below (length (store s)) t" by simp_all
  from commit_ok[OF this o] p o show ?thesis
    unfolding y' by (intro resumed_ok[OF assms(1) i]) (simp add: pending_def)
next
  case (Thrown i)
  with assms(2) have i: "i < length (activations y)" and
    y': "y' = resumed y i Finished (handleSend_catch (pending y i))"
    by (auto simp: in_phase_def split: if_splits)
  obtain s t where p: "pending y i = (s, t)" by (cases "pending y i")
  obtain s' t' where o: "handleSend_catch (s, t) = (s', t')" by (cases "handleSend_catch (s, t)")
  from pending_refs[OF assms(1) i] p have "app_ok s" "refs_below (length (store s)) t" by simp_all
  from catch_ok[OF this o] p o show ?thesis
    unfolding y' by (intro resumed_ok[OF assms(1) i]) (simp add: pending_def)
qed

lemma run_ok: "runtime_ok y \<Longrightarrow> run es y = Some y' \<Longrightarrow> runtime_ok y'"
  by (induction es arbitrary: y) (auto split: option.splits dest: step_ok)

lemma runtime_ok_init: "runtime_ok runtime_init"
  by (simp add: runtime_ok_def runtime_init_def app_ok_init)

lemma reachable_app_ok: "run es runtime_init = Some y \<Longrightarrow> app_ok (state y)"
  using run_ok[OF runtime_ok_init] by (simp add: runtime_ok_def)

subsection \<open>An uninterrupted turn is \<open>handleSend\<close>\<close>

lemma run_append:
  "run (es @ fs) y = (case run es y of None \<Rightarrow> None | Some y' \<Rightarrow> run fs y')"
  by (induction es arbitrary: y) (simp_all split: option.splits)

lemma step_enter:
  assumes "handleSend_submit (state y) = Some (s0, t0)"
  shows "step (KeyDown enter_key 1024) y =
    Some \<lparr>state = s0, activations = activations y @ [(Requested, t0)]\<rparr>"
  using assms by (simp add: handleKeyDown_def enter_key_def call_handleSend_def started_def)

lemma step_opened:
  "step (Opened (length acts)) \<lparr>state = s, activations = acts @ [(Requested, t)]\<rparr> =
    Some \<lparr>state = fst (handleSend_open (s, t)),
          activations = acts @ [(Streaming, snd (handleSend_open (s, t)))]\<rparr>"
  by (simp add: in_phase_def resumed_def pending_def)

lemma step_chunk:
  "step (Chunk (length acts) c) \<lparr>state = s, activations = acts @ [(Streaming, t)]\<rparr> =
    map_option (\<lambda>st. \<lparr>state = fst st, activations = acts @ [(Streaming, snd st)]\<rparr>)
      (handleSend_chunk c (s, t))"
  by (cases "handleSend_chunk c (s, t)") (simp_all add: in_phase_def resumed_def pending_def)

lemma run_chunks:
  "run (map (Chunk (length acts)) cs) \<lparr>state = s, activations = acts @ [(Streaming, t)]\<rparr> =
    map_option (\<lambda>st. \<lparr>state = fst st, activations = acts @ [(Streaming, snd st)]\<rparr>)
      (handleSend_chunks cs (s, t))"
proof (induction cs arbitrary: s t)
  case Nil
  then show ?case by simp
next
  case (Cons c cs)
  show ?case
  proof (cases "handleSend_chunk c (s, t)")
    case None
    then show ?thesis by (simp add: step_chunk del: step.simps)
  next
    case (Some st)
    obtain s' t' where st: "st = (s', t')" by (cases st)
    with Some Cons.IH[of s' t'] show ?thesis by (simp add: step_chunk del: step.simps)
  qed
qed

lemma step_completed:
  "step (Completed (length acts)) \<lparr>state = s, activations = acts @ [(Streaming, t)]\<rparr> =
    Some \<lparr>state = fst (handleSend_commit (s, t)),
          activations = acts @ [(Finished, snd (handleSend_commit (s, t)))]\<rparr>"
  by (simp add: in_phase_def resumed_def pending_def)

lemma step_thrown:
  "p = Requested \<or> p = Streaming \<Longrightarrow>
   step (Thrown (length acts)) \<lparr>state = s, activations = acts @ [(p, t)]\<rparr> =
    Some \<lparr>state = fst (handleSend_catch (s, t)),
          activations = acts @ [(Finished, snd (handleSend_catch (s, t)))]\<rparr>"
  by (auto simp: in_phase_def resumed_def pending_def)

lemma run_schedule:
  assumes "trim (input (state y)) \<noteq> []"
  shows "map_option state (run (schedule (length (activations y)) c) y) = handleSend c (state y)"
proof -
  let ?n = "length (activations y)"
  obtain s0 t0 where sub: "handleSend_submit (state y) = Some (s0, t0)"
    using submit_explicit[OF assms] by simp
  let ?y0 = "\<lparr>state = s0, activations = activations y @ [(Requested, t0)]\<rparr>"
  have enter: "step (KeyDown enter_key 1024) y = Some ?y0" by (rule step_enter[OF sub])
  show ?thesis
  proof (cases c)
    case Rejects
    then show ?thesis
      using enter sub step_thrown[of Requested "activations y" s0 t0]
      by (simp add: handleSend_def del: step.simps)
  next
    case (Streams cs e)
    obtain s1 t1 where op: "handleSend_open (s0, t0) = (s1, t1)"
      by (cases "handleSend_open (s0, t0)")
    let ?y1 = "\<lparr>state = s1, activations = activations y @ [(Streaming, t1)]\<rparr>"
    have opened: "step (Opened ?n) ?y0 = Some ?y1"
      using step_opened[of "activations y" s0 t0] op by simp
    let ?last = "case e of Completes \<Rightarrow> Completed ?n | Throws \<Rightarrow> Thrown ?n"
    have "run (schedule ?n c) y = run (map (Chunk ?n) cs @ [?last]) ?y1"
      using Streams enter opened by (simp del: step.simps)
    also have "\<dots> = (case handleSend_chunks cs (s1, t1) of None \<Rightarrow> None
        | Some st \<Rightarrow> run [?last] \<lparr>state = fst st, activations = activations y @ [(Streaming, snd st)]\<rparr>)"
      by (simp add: run_append run_chunks split: option.splits)
    finally have r: "run (schedule ?n c) y = (case handleSend_chunks cs (s1, t1) of None \<Rightarrow> None
        | Some st \<Rightarrow> run [?last] \<lparr>state = fst st, activations = activations y @ [(Streaming, snd st)]\<rparr>)" .
    show ?thesis
    proof (cases "handleSend_chunks cs (s1, t1)")
      case None
      with r Streams sub op show ?thesis by (simp add: handleSend_def)
    next
      case (Some st)
      obtain s2 t2 where st: "st = (s2, t2)" by (cases st)
      show ?thesis
      proof (cases e)
        case Completes
        with r Some st Streams sub op step_completed[of "activations y" s2 t2] show ?thesis
          by (simp add: handleSend_def del: step.simps)
      next
        case Throws
        with r Some st Streams sub op step_thrown[of Streaming "activations y" s2 t2] show ?thesis
          by (simp add: handleSend_def del: step.simps)
      qed
    qed
  qed
qed

subsection \<open>The guard of the send button\<close>

lemma button_guard: "isThinking s \<Longrightarrow> button_onClick s = (s, None)"
  by (simp add: button_onClick_def send_button_disabled_def)

lemma enter_unguarded:
  "handleKeyDown enter_key 1024 s = call_handleSend s"
  by (simp add: handleKeyDown_def enter_key_def)

lemma enter_submits_while_thinking:
  assumes "app_ok s" and "trim (input s) \<noteq> []" and "768 < w"
  shows "\<exists>s' t. handleKeyDown enter_key w s = (s', Some t) \<and>
     transcript s' = transcript s @ [\<lparr>role = ''user'', content = trim (input s)\<rparr>]"
proof -
  from submit_state[OF assms(1,2)] obtain s0 t0 where
    "handleSend_submit s = Some (s0, t0)"
    "transcript s0 = transcript s @ [\<lparr>role = ''user'', content = trim (input s)\<rparr>]"
    by blast
  with assms(3) show ?thesis
    by (simp add: handleKeyDown_def enter_key_def call_handleSend_def)
qed

subsection \<open>A chunk that arrives after another submission\<close>

text \<open>Whatever activation \<open>t\<close> delivers a chunk right after a submission, the chunk
  updater writes \<open>t\<close>'s accumulated text into the \<open>userMessage\<close> of the new activation.\<close>

lemma chunk_overwrites_new_userMessage:
  assumes "trim (input s) \<noteq> []"
  shows "\<exists>s1 t1 s2 t2. handleSend_submit s = Some (s1, t1) \<and>
     handleSend_chunk c (s1, t) = Some (s2, t2) \<and>
     store s2 ! userMessage t1 = \<lparr>role = ''user'', content = accumulatedResponse t @ c\<rparr>"
proof -
  let ?u = "\<lparr>role = ''user'', content = trim (input s)\<rparr>"
  let ?s1 = "s\<lparr>store := store s @ [?u],
       messages := messages s @ [length (store s)], input := [], isThinking := True\<rparr>"
  obtain t1 where sub: "handleSend_submit s = Some (?s1, t1)" and
    um: "userMessage t1 = length (store s)"
    using submit_explicit[OF assms] by simp
  have ch: "handleSend_chunk c (?s1, t) =
    Some (?s1\<lparr>store := store s @ [?u\<lparr>content := accumulatedResponse t @ c\<rparr>]\<rparr>,
          t\<lparr>accumulatedResponse := accumulatedResponse t @ c\<rparr>)"
    by (rule chunk_explicit[where ms = "messages s"]) simp_all
  show ?thesis
    using sub ch um by simp
qed

section \<open>A turn that no submission interrupts\<close>

text \<open>
  A turn is submitted while no activation is pending, and no further activation starts
  before it has ended; the user may type, press keys and click in between. Such a run of
  the event loop leaves the state that \<open>handleSend\<close> computes for the connector's
  behaviour read off the run, up to the text area (\<open>undisturbed_turn\<close>).
\<close>

subsection \<open>User events\<close>

lemma step_length_mono: "step e y = Some y' \<Longrightarrow> length (activations y) \<le> length (activations y')"
  by (cases e)
     (auto simp: started_def resumed_def split: if_splits prod.splits option.splits)

lemma run_length_mono: "run es y = Some y' \<Longrightarrow> length (activations y) \<le> length (activations y')"
proof (induction es arbitrary: y)
  case Nil
  then show ?case by simp
next
  case (Cons e es)
  then obtain z where "step e y = Some z" "run es z = Some y'"
    by (auto split: option.splits)
  with Cons.IH[of z] step_length_mono[of e y z] show ?case by simp
qed

lemma call_handleSend_cases:
  "(call_handleSend s = (s, None) \<and> handleSend_submit s = None) \<or>
   (\<exists>s0 t0. handleSend_submit s = Some (s0, t0) \<and> call_handleSend s = (s0, Some t0))"
  by (cases "handleSend_submit s") (auto simp: call_handleSend_def)

lemma user_handler_cases:
  assumes "is_user e"
  shows "(\<exists>v. step e y = Some (y\<lparr>state := (state y)\<lparr>input := v\<rparr>\<rparr>)) \<or>
         (\<exists>s0 t0. handleSend_submit (state y) = Some (s0, t0) \<and>
            step e y = Some \<lparr>state = s0, activations = activations y @ [(Requested, t0)]\<rparr>)"
proof (cases e)
  case (Change v)
  then show ?thesis by (auto simp: onChange_def)
next
  case (KeyDown k w)
  have same: "y\<lparr>state := (state y)\<lparr>input := input (state y)\<rparr>\<rparr> = y" by simp
  from call_handleSend_cases[of "state y"] show ?thesis
  proof
    assume "call_handleSend (state y) = (state y, None) \<and> handleSend_submit (state y) = None"
    then have "step e y = Some y \<or> step e y = Some (y\<lparr>state := (state y)\<lparr>input := input (state y) @ [CHR 0x0A]\<rparr>\<rparr>)"
      using KeyDown by (auto simp: handleKeyDown_def started_def)
    then show ?thesis using same by metis
  next
    assume "\<exists>s0 t0. handleSend_submit (state y) = Some (s0, t0) \<and>
      call_handleSend (state y) = (s0, Some t0)"
    then obtain s0 t0 where sub: "handleSend_submit (state y) = Some (s0, t0)"
      and call: "call_handleSend (state y) = (s0, Some t0)" by blast
    have "step e y = Some y \<or> step e y = Some (y\<lparr>state := (state y)\<lparr>input := input (state y) @ [CHR 0x0A]\<rparr>\<rparr>)
        \<or> step e y = Some \<lparr>state = s0, activations = activations y @ [(Requested, t0)]\<rparr>"
      using KeyDown call by (auto simp: handleKeyDown_def started_def)
    then show ?thesis using same sub by metis
  qed
next
  case Click
  have same: "y\<lparr>state := (state y)\<lparr>input := input (state y)\<rparr>\<rparr> = y" by simp
  from call_handleSend_cases[of "state y"] show ?thesis
  proof
    assume "call_handleSend (state y) = (state y, None) \<and> handleSend_submit (state y) = None"
    then have "step e y = Some y"
      using Click by (auto simp: button_onClick_def started_def)
    then show ?thesis using same by metis
  next
    assume "\<exists>s0 t0. handleSend_submit (state y) = Some (s0, t0) \<and>
      call_handleSend (state y) = (s0, Some t0)"
    then obtain s0 t0 where sub: "handleSend_submit (state y) = Some (s0, t0)"
      and call: "call_handleSend (state y) = (s0, Some t0)" by blast
    have "step e y = Some y
        \<or> step e y = Some \<lparr>state = s0, activations = activations y @ [(Requested, t0)]\<rparr>"
      using Click call by (auto simp: button_onClick_def started_def)
    then show ?thesis using same sub by metis
  qed
qed (use assms in simp_all)

lemma user_event_quiet:
  assumes "is_user e" and "step e y = Some y'"
    and "length (activations y') = length (activations y)"
  shows "activations y' = activations y \<and> eq_but_input (state y) (state y')"
  using user_handler_cases[OF assms(1), of y] assms(2,3) by (auto simp: eq_but_input_def)

lemma user_event_starts:
  assumes "step e y = Some y'"
    and "length (activations y') = Suc (length (activations y))"
  shows "\<exists>s0 t0. handleSend_submit (state y) = Some (s0, t0) \<and> state y' = s0 \<and>
     activations y' = activations y @ [(Requested, t0)]"
proof (cases "is_user e")
  case True
  from user_handler_cases[OF True, of y] assms show ?thesis by auto
next
  case False
  then have "length (activations y') = length (activations y)"
    using assms(1) by (cases e) (auto simp: resumed_def split: if_splits)
  with assms(2) show ?thesis by simp
qed

subsection \<open>With no activation pending, \<open>isThinking\<close> is false\<close>

lemma idle_step:
  assumes "idle y \<longrightarrow> \<not> isThinking (state y)" and "step e y = Some y'" and "idle y'"
  shows "\<not> isThinking (state y')"
proof (cases "is_user e")
  case True
  from user_handler_cases[OF True, of y] show ?thesis
  proof
    assume "\<exists>v. step e y = Some (y\<lparr>state := (state y)\<lparr>input := v\<rparr>\<rparr>)"
    with assms show ?thesis by (auto simp: idle_def)
  next
    assume "\<exists>s0 t0. handleSend_submit (state y) = Some (s0, t0) \<and>
      step e y = Some \<lparr>state = s0, activations = activations y @ [(Requested, t0)]\<rparr>"
    with assms(2,3) show ?thesis by (auto simp: idle_def)
  qed
next
  case False
  have upd: "fst (xs[i := (p, t)] ! i) = p" if "i < length xs" for xs :: "(phase \<times> activation) list" and i p t
    using that by simp
  from False assms(2) consider
      i where "e = Opened i" "in_phase y i Requested"
        "y' = resumed y i Streaming (handleSend_open (pending y i))"
    | i c st where "e = Chunk i c" "in_phase y i Streaming" "y' = resumed y i Streaming st"
    | i where "e = Completed i" "y' = resumed y i Finished (handleSend_commit (pending y i))"
    | i where "e = Thrown i" "y' = resumed y i Finished (handleSend_catch (pending y i))"
    by (cases e) (auto split: if_splits)
  then show ?thesis
  proof cases
    case 1
    then have "fst (activations y' ! i) = Streaming" "i < length (activations y')"
      by (simp_all add: resumed_def in_phase_def)
    with assms(3) show ?thesis by (auto simp: idle_def list_all_length)
  next
    case 2
    then have "fst (activations y' ! i) = Streaming" "i < length (activations y')"
      by (simp_all add: resumed_def in_phase_def)
    with assms(3) show ?thesis by (auto simp: idle_def list_all_length)
  next
    case 3
    then show ?thesis
      by (cases "pending y i") (simp add: resumed_def handleSend_commit_def Let_def)
  next
    case 4
    then show ?thesis
      by (cases "pending y i") (simp add: resumed_def handleSend_catch_def Let_def)
  qed
qed

lemma idle_run:
  "idle y \<longrightarrow> \<not> isThinking (state y) \<Longrightarrow> run es y = Some y' \<Longrightarrow> idle y' \<Longrightarrow>
     \<not> isThinking (state y')"
proof (induction es arbitrary: y)
  case Nil
  then show ?case by simp
next
  case (Cons e es)
  from Cons.prems(2) obtain z where st: "step e y = Some z" and rest: "run es z = Some y'"
    by (auto split: option.splits)
  have "idle z \<longrightarrow> \<not> isThinking (state z)"
    using idle_step[OF Cons.prems(1) st] by blast
  from Cons.IH[OF this rest Cons.prems(3)] show ?case .
qed

lemma idle_not_thinking:
  "run es runtime_init = Some y \<Longrightarrow> idle y \<Longrightarrow> \<not> isThinking (state y)"
  by (rule idle_run[of runtime_init es y]) (simp_all add: runtime_init_def app_init_def)

subsection \<open>States that differ in the text area\<close>

lemma ebi_refl: "eq_but_input a a"
  by (simp add: eq_but_input_def)

lemma ebi_trans: "eq_but_input a b \<Longrightarrow> eq_but_input b c \<Longrightarrow> eq_but_input a c"
  by (simp add: eq_but_input_def)

lemma ebi_views:
  "eq_but_input a b \<Longrightarrow> transcript a = transcript b \<and> history a = history b \<and>
     isThinking a = isThinking b"
  by (simp add: eq_but_input_def transcript_def history_def deref_def)

lemma ebi_open:
  "eq_but_input a b \<Longrightarrow>
     eq_but_input (fst (handleSend_open (a, t))) (fst (handleSend_open (b, t))) \<and>
     snd (handleSend_open (a, t)) = snd (handleSend_open (b, t))"
  by (simp add: eq_but_input_def handleSend_open_def Let_def)

lemma ebi_chunk:
  assumes "eq_but_input a b" and "handleSend_chunk c (b, t) = Some st"
  shows "\<exists>a'. handleSend_chunk c (a, t) = Some (a', snd st) \<and> eq_but_input a' (fst st)"
  using assms by (auto simp: eq_but_input_def handleSend_chunk_def Let_def split: if_splits)

lemma ebi_finish:
  "eq_but_input a b \<Longrightarrow> eq_but_input (fst (finish e (a, t))) (fst (finish e (b, t)))"
  by (cases e)
     (simp_all add: eq_but_input_def finish_def handleSend_commit_def handleSend_catch_def Let_def)

subsection \<open>After, during and before the stream\<close>

lemma after_finish:
  assumes "idle z" and "run es z = Some y'"
    and "length (activations y') = length (activations z)"
  shows "activations y' = activations z \<and> eq_but_input (state z) (state y') \<and>
         list_all is_user es"
  using assms
proof (induction es arbitrary: z)
  case Nil
  then show ?case by (simp add: ebi_refl)
next
  case (Cons e es)
  from Cons.prems(2) obtain z' where st: "step e z = Some z'" and rest: "run es z' = Some y'"
    by (auto split: option.splits)
  have len: "length (activations z') = length (activations z)"
    using step_length_mono[OF st] run_length_mono[OF rest] Cons.prems(3) by simp
  have user: "is_user e"
  proof (rule ccontr)
    assume "\<not> is_user e"
    moreover have "\<not> in_phase z i Requested" "\<not> in_phase z i Streaming" for i
      using Cons.prems(1) by (auto simp: idle_def in_phase_def list_all_length)
    ultimately show False using st by (cases e) simp_all
  qed
  from user_event_quiet[OF user st len] have
    acts: "activations z' = activations z" and s': "eq_but_input (state z) (state z')"
    by simp_all
  have "idle z'" using Cons.prems(1) acts by (simp add: idle_def)
  from Cons.IH[OF this rest] Cons.prems(3) len have
    a: "activations y' = activations z'" and
    s: "eq_but_input (state z') (state y')" and u: "list_all is_user es"
    by simp_all
  from ebi_trans[OF s' s] a acts u user show ?case by simp
qed

lemma chunks_of_users: "list_all is_user es \<Longrightarrow> chunks_of n es = []"
  by (induction n es rule: chunks_of.induct) simp_all

lemma no_own_in_users:
  "list_all is_user es \<Longrightarrow> Opened n \<notin> set es \<and> Completed n \<notin> set es"
  by (induction es) auto

lemma in_phase_last:
  assumes "list_all (\<lambda>pt. fst pt = Finished) acts0" and "activations z = acts0 @ [(p, t)]"
    and "in_phase z i q" and "q \<noteq> Finished"
  shows "i = length acts0 \<and> q = p"
proof -
  from assms(2,3) have i: "i < Suc (length acts0)" and q: "fst ((acts0 @ [(p, t)]) ! i) = q"
    by (simp_all add: in_phase_def)
  show ?thesis
  proof (cases "i < length acts0")
    case True
    with assms(1) q have "q = Finished" by (simp add: nth_append list_all_length)
    with assms(4) show ?thesis by simp
  next
    case False
    with i have "i = length acts0" by simp
    with q show ?thesis by simp
  qed
qed

lemma pending_last:
  "activations z = acts0 @ [(p, t)] \<Longrightarrow> pending z (length acts0) = (state z, t)"
  by (simp add: pending_def)

lemma resumed_last:
  "activations z = acts0 @ [(p, t)] \<Longrightarrow>
   resumed z (length acts0) q st = \<lparr>state = fst st, activations = acts0 @ [(q, snd st)]\<rparr>"
  by (simp add: resumed_def)

lemma quiet_step:
  assumes "is_user e" and "step e z = Some z'" and "run es z' = Some y'"
    and "length (activations y') = length (activations z)"
  shows "activations z' = activations z \<and> eq_but_input (state z) (state z')"
proof -
  have "length (activations z') = length (activations z)"
    using step_length_mono[OF assms(2)] run_length_mono[OF assms(3)] assms(4) by simp
  from user_event_quiet[OF assms(1,2) this] show ?thesis .
qed

lemma while_streaming:
  assumes "list_all (\<lambda>pt. fst pt = Finished) acts0"
    and "eq_but_input sc (state z)"
    and "activations z = acts0 @ [(Streaming, tc)]"
    and "run es z = Some y'"
    and "length (activations y') = Suc (length acts0)"
    and "fst (activations y' ! length acts0) = Finished"
  shows "\<exists>st. handleSend_chunks (chunks_of (length acts0) es) (sc, tc) = Some st \<and>
     eq_but_input (fst (finish (ending (length acts0) es) st)) (state y')"
  using assms(2-)
proof (induction es arbitrary: z sc tc)
  case Nil
  then show ?case by simp
next
  case (Cons e es)
  let ?n = "length acts0"
  from Cons.prems(3) obtain z' where st: "step e z = Some z'" and rest: "run es z' = Some y'"
    by (auto split: option.splits)
  have quiet: ?case if user: "is_user e"
  proof -
    have "length (activations y') = length (activations z)"
      using Cons.prems(2,4) by simp
    from quiet_step[OF user st rest this] have
      acts: "activations z' = acts0 @ [(Streaming, tc)]" and
      s': "eq_but_input (state z) (state z')"
      using Cons.prems(2) by simp_all
    from Cons.IH[OF ebi_trans[OF Cons.prems(1) s'] acts rest Cons.prems(4,5)]
    obtain st1 where "handleSend_chunks (chunks_of ?n es) (sc, tc) = Some st1"
      "eq_but_input (fst (finish (ending ?n es) st1)) (state y')" by blast
    moreover have "chunks_of ?n (e # es) = chunks_of ?n es" "ending ?n (e # es) = ending ?n es"
      using user by (cases e; simp add: ending_def)+
    ultimately show ?thesis by simp
  qed
  have fin: "\<exists>st. handleSend_chunks (chunks_of ?n es) (sc, tc) = Some st \<and>
      eq_but_input (fst (finish d st)) (state y') \<and> Completed ?n \<notin> set es"
    if z': "z' = \<lparr>state = fst (finish d (state z, tc)),
                   activations = acts0 @ [(Finished, snd (finish d (state z, tc)))]\<rparr>" for d
  proof -
    have "idle z'" using assms(1) by (simp add: z' idle_def)
    from after_finish[OF this rest] Cons.prems(4) have
      s: "eq_but_input (state z') (state y')" and u: "list_all is_user es"
      by (simp_all add: z')
    have "eq_but_input (fst (finish d (sc, tc))) (state z')"
      using ebi_finish[OF Cons.prems(1), of d tc] by (simp add: z')
    from ebi_trans[OF this s] u no_own_in_users[OF u, of ?n] show ?thesis
      by (simp add: chunks_of_users)
  qed
  show ?case
  proof (cases e)
    case (Opened i)
    with st have "in_phase z i Requested" by (simp split: if_splits)
    from in_phase_last[OF assms(1) Cons.prems(2) this] show ?thesis by simp
  next
    case (Chunk i c)
    with st have ph: "in_phase z i Streaming" by (simp split: if_splits)
    from in_phase_last[OF assms(1) Cons.prems(2) ph] have i: "i = ?n" by simp
    from st Chunk ph i obtain st1 where
      ch: "handleSend_chunk c (state z, tc) = Some st1" and
      z': "z' = \<lparr>state = fst st1, activations = acts0 @ [(Streaming, snd st1)]\<rparr>"
      by (auto simp: pending_last[OF Cons.prems(2)] resumed_last[OF Cons.prems(2)])
    from ebi_chunk[OF Cons.prems(1) ch] obtain sc' where
      ch0: "handleSend_chunk c (sc, tc) = Some (sc', snd st1)" and
      e': "eq_but_input sc' (fst st1)"
      by blast
    have "\<exists>st. handleSend_chunks (chunks_of ?n es) (sc', snd st1) = Some st \<and>
       eq_but_input (fst (finish (ending ?n es) st)) (state y')"
      by (rule Cons.IH[of _ z']) (use z' e' rest Cons.prems(4,5) in simp_all)
    with ch0 Chunk i show ?thesis by (simp add: ending_def)
  next
    case (Completed i)
    with st have ph: "in_phase z i Streaming" by (simp split: if_splits)
    from in_phase_last[OF assms(1) Cons.prems(2) ph] have i: "i = ?n" by simp
    from st Completed ph i have
      "z' = \<lparr>state = fst (finish Completes (state z, tc)),
             activations = acts0 @ [(Finished, snd (finish Completes (state z, tc)))]\<rparr>"
      by (simp add: pending_last[OF Cons.prems(2)] resumed_last[OF Cons.prems(2)] finish_def)
    from fin[OF this] Completed i show ?thesis by (auto simp: ending_def)
  next
    case (Thrown i)
    with st have ph: "in_phase z i Requested \<or> in_phase z i Streaming" by (simp split: if_splits)
    with in_phase_last[OF assms(1) Cons.prems(2)] have i: "i = ?n" by auto
    from st Thrown ph i have
      "z' = \<lparr>state = fst (finish Throws (state z, tc)),
             activations = acts0 @ [(Finished, snd (finish Throws (state z, tc)))]\<rparr>"
      by (simp add: pending_last[OF Cons.prems(2)] resumed_last[OF Cons.prems(2)] finish_def)
    from fin[OF this] Thrown i show ?thesis by (auto simp: ending_def)
  next
    case (Change v)
    then show ?thesis using quiet by simp
  next
    case (KeyDown k w)
    then show ?thesis using quiet by simp
  next
    case Click
    then show ?thesis using quiet by simp
  qed
qed

lemma await_finish:
  "handleSend_await (Streams cs d) st =
     map_option (finish d) (handleSend_chunks cs (handleSend_open st))"
  by (cases "handleSend_chunks cs (handleSend_open st)") (simp_all add: finish_def)

lemma while_requested:
  assumes "list_all (\<lambda>pt. fst pt = Finished) acts0"
    and "eq_but_input s0 (state z)"
    and "activations z = acts0 @ [(Requested, t0)]"
    and "run es z = Some y'"
    and "length (activations y') = Suc (length acts0)"
    and "fst (activations y' ! length acts0) = Finished"
  shows "\<exists>st. handleSend_await (behaviour (length acts0) es) (s0, t0) = Some st \<and>
     eq_but_input (fst st) (state y')"
  using assms(2-)
proof (induction es arbitrary: z)
  case Nil
  then show ?case by simp
next
  case (Cons e es)
  let ?n = "length acts0"
  from Cons.prems(3) obtain z' where st: "step e z = Some z'" and rest: "run es z' = Some y'"
    by (auto split: option.splits)
  have quiet: ?case if user: "is_user e"
  proof -
    have "length (activations y') = length (activations z)"
      using Cons.prems(2,4) by simp
    from quiet_step[OF user st rest this] have
      acts: "activations z' = acts0 @ [(Requested, t0)]" and
      s': "eq_but_input (state z) (state z')"
      using Cons.prems(2) by simp_all
    from Cons.IH[OF ebi_trans[OF Cons.prems(1) s'] acts rest Cons.prems(4,5)]
    obtain st1 where "handleSend_await (behaviour ?n es) (s0, t0) = Some st1"
      "eq_but_input (fst st1) (state y')" by blast
    moreover have "behaviour ?n (e # es) = behaviour ?n es"
      using user by (cases e; simp add: behaviour_def ending_def)
    ultimately show ?thesis by simp
  qed
  show ?case
  proof (cases e)
    case (Opened i)
    with st have ph: "in_phase z i Requested" by (simp split: if_splits)
    from in_phase_last[OF assms(1) Cons.prems(2) ph] have i: "i = ?n" by simp
    let ?o = "handleSend_open (state z, t0)"
    from st Opened ph i have
      z': "z' = \<lparr>state = fst ?o, activations = acts0 @ [(Streaming, snd ?o)]\<rparr>"
      by (simp add: pending_last[OF Cons.prems(2)] resumed_last[OF Cons.prems(2)])
    from ebi_open[OF Cons.prems(1), of t0] have
      e': "eq_but_input (fst (handleSend_open (s0, t0))) (state z')" and
      t': "snd ?o = snd (handleSend_open (s0, t0))"
      by (simp_all add: z')
    have "\<exists>st. handleSend_chunks (chunks_of ?n es)
          (fst (handleSend_open (s0, t0)), snd (handleSend_open (s0, t0))) = Some st \<and>
        eq_but_input (fst (finish (ending ?n es) st)) (state y')"
      by (rule while_streaming[OF assms(1) e' _ rest Cons.prems(4,5)]) (simp add: z' t')
    then obtain st1 where
      "handleSend_chunks (chunks_of ?n es) (handleSend_open (s0, t0)) = Some st1"
      "eq_but_input (fst (finish (ending ?n es) st1)) (state y')"
      by auto
    moreover have "behaviour ?n (e # es) = Streams (chunks_of ?n es) (ending ?n es)"
      using Opened i by (simp add: behaviour_def ending_def)
    ultimately show ?thesis by (simp add: finish_def)
  next
    case (Chunk i c)
    with st have "in_phase z i Streaming" by (simp split: if_splits)
    from in_phase_last[OF assms(1) Cons.prems(2) this] show ?thesis by simp
  next
    case (Completed i)
    with st have "in_phase z i Streaming" by (simp split: if_splits)
    from in_phase_last[OF assms(1) Cons.prems(2) this] show ?thesis by simp
  next
    case (Thrown i)
    with st have ph: "in_phase z i Requested \<or> in_phase z i Streaming" by (simp split: if_splits)
    with in_phase_last[OF assms(1) Cons.prems(2)] have i: "i = ?n" by auto
    from st Thrown ph i have
      z': "z' = \<lparr>state = fst (finish Throws (state z, t0)),
             activations = acts0 @ [(Finished, snd (finish Throws (state z, t0)))]\<rparr>"
      by (simp add: pending_last[OF Cons.prems(2)] resumed_last[OF Cons.prems(2)] finish_def)
    have "idle z'" using assms(1) by (simp add: z' idle_def)
    from after_finish[OF this rest] Cons.prems(4) have
      s: "eq_but_input (state z') (state y')" and u: "list_all is_user es"
      by (simp_all add: z')
    have "eq_but_input (fst (finish Throws (s0, t0))) (state z')"
      using ebi_finish[OF Cons.prems(1), of Throws t0] by (simp add: z')
    from ebi_trans[OF this s] have "eq_but_input (fst (handleSend_catch (s0, t0))) (state y')"
      by (simp add: finish_def)
    moreover have "behaviour ?n (e # es) = Rejects"
      using Thrown i no_own_in_users[OF u, of ?n] by (simp add: behaviour_def)
    ultimately show ?thesis by simp
  next
    case (Change v)
    then show ?thesis using quiet by simp
  next
    case (KeyDown k w)
    then show ?thesis using quiet by simp
  next
    case Click
    then show ?thesis using quiet by simp
  qed
qed

lemma undisturbed_turn:
  assumes "idle y"
    and "map_option (\<lambda>z. length (activations z)) (step e y) = Some (Suc (length (activations y)))"
    and "run (e # es) y = Some y'"
    and "length (activations y') = Suc (length (activations y))"
    and "in_phase y' (length (activations y)) Finished"
  shows "trim (input (state y)) \<noteq> [] \<and>
     (\<exists>s'. handleSend (behaviour (length (activations y)) es) (state y) = Some s' \<and>
        eq_but_input s' (state y'))"
proof -
  from assms(2) obtain y0 where st: "step e y = Some y0" and
    len0: "length (activations y0) = Suc (length (activations y))"
    by auto
  from assms(3) st have rest: "run es y0 = Some y'" by simp
  from user_event_starts[OF st len0] obtain s0 t0 where
    sub: "handleSend_submit (state y) = Some (s0, t0)" and s0: "state y0 = s0" and
    acts: "activations y0 = activations y @ [(Requested, t0)]"
    by blast
  from sub have nb: "trim (input (state y)) \<noteq> []"
    by (auto simp: handleSend_submit_def Let_def split: if_splits)
  have fin: "list_all (\<lambda>pt. fst pt = Finished) (activations y)"
    using assms(1) by (simp add: idle_def)
  have "\<exists>st. handleSend_await (behaviour (length (activations y)) es) (s0, t0) = Some st \<and>
     eq_but_input (fst st) (state y')"
    by (rule while_requested[OF fin _ acts rest assms(4)])
       (use s0 assms(5) in \<open>simp_all add: ebi_refl in_phase_def\<close>)
  then obtain st1 where
    "handleSend_await (behaviour (length (activations y)) es) (s0, t0) = Some st1"
    "eq_but_input (fst st1) (state y')"
    by blast
  with sub have "handleSend (behaviour (length (activations y)) es) (state y) = Some (fst st1) \<and>
      eq_but_input (fst st1) (state y')"
    by (simp add: handleSend_def)
  with nb show ?thesis by blast
qed

section \<open>Turns that run alone\<close>

text \<open>
  What the specification says of a turn holds for an activation of \<open>handleSend\<close> that
  runs from the call to its end with no other handler in between, and for sessions of
  such turns (\<open>session\<close>).
\<close>

text \<open>The history after a turn: the exchange is appended on completion, nothing on failure.\<close>

lemma history_after_turn:
  assumes "app_ok s" and "trim (input s) \<noteq> []"
  shows "(\<exists>s'. handleSend (Streams cs Completes) s = Some s' \<and>
            history s' = history s @ [\<lparr>role = ''user'', content = trim (input s)\<rparr>,
              \<lparr>role = ''assistant'', content = concat cs\<rparr>] \<and>
            drop (length (history s') - 2) (history s') =
              [\<lparr>role = ''user'', content = trim (input s)\<rparr>,
               \<lparr>role = ''assistant'', content = concat cs\<rparr>] \<and>
            map to_context (drop (length (history s') - 2) (history s')) =
              [\<lparr>parts = [trim (input s)], entry_role = ''user''\<rparr>,
               \<lparr>parts = [concat cs], entry_role = ''model''\<rparr>]) \<and>
         (\<exists>s'. handleSend (Streams cs Throws) s = Some s' \<and>
            conversationHistory s' = conversationHistory s \<and> history s' = history s) \<and>
         (\<exists>s'. handleSend Rejects s = Some s' \<and>
            conversationHistory s' = conversationHistory s \<and> history s' = history s)"
proof (intro conjI)
  from turn_completes[OF assms, of cs] obtain s' where
    run: "handleSend (Streams cs Completes) s = Some s'" and
    hi: "history s' = history s @ [\<lparr>role = ''user'', content = trim (input s)\<rparr>,
              \<lparr>role = ''assistant'', content = concat cs\<rparr>]"
    by blast
  from hi have last2: "drop (length (history s') - 2) (history s') =
      [\<lparr>role = ''user'', content = trim (input s)\<rparr>,
       \<lparr>role = ''assistant'', content = concat cs\<rparr>]"
    by simp
  have ctx: "map to_context (drop (length (history s') - 2) (history s')) =
      [\<lparr>parts = [trim (input s)], entry_role = ''user''\<rparr>,
       \<lparr>parts = [concat cs], entry_role = ''model''\<rparr>]"
    unfolding last2 by (simp add: to_context_def)
  show "\<exists>s'. handleSend (Streams cs Completes) s = Some s' \<and>
            history s' = history s @ [\<lparr>role = ''user'', content = trim (input s)\<rparr>,
              \<lparr>role = ''assistant'', content = concat cs\<rparr>] \<and>
            drop (length (history s') - 2) (history s') =
              [\<lparr>role = ''user'', content = trim (input s)\<rparr>,
               \<lparr>role = ''assistant'', content = concat cs\<rparr>] \<and>
            map to_context (drop (length (history s') - 2) (history s')) =
              [\<lparr>parts = [trim (input s)], entry_role = ''user''\<rparr>,
               \<lparr>parts = [concat cs], entry_role = ''model''\<rparr>]"
    by (rule exI[of _ s']) (intro conjI run hi last2 ctx)
next
  from turn_throws[OF assms, of cs] obtain s' where
    "handleSend (Streams cs Throws) s = Some s'"
    "conversationHistory s' = conversationHistory s" "history s' = history s"
    by blast
  then show "\<exists>s'. handleSend (Streams cs Throws) s = Some s' \<and>
            conversationHistory s' = conversationHistory s \<and> history s' = history s"
    by (intro exI[of _ s'] conjI)
next
  from turn_rejects[OF assms] obtain s' where
    "handleSend Rejects s = Some s'"
    "conversationHistory s' = conversationHistory s" "history s' = history s"
    by blast
  then show "\<exists>s'. handleSend Rejects s = Some s' \<and>
            conversationHistory s' = conversationHistory s \<and> history s' = history s"
    by (intro exI[of _ s'] conjI)
qed

text \<open>The assistant message of the turn ends with the chunks in the order of delivery.\<close>

lemma chunks_concatenated:
  assumes "app_ok s" and "trim (input s) \<noteq> []"
  shows "\<exists>s'. handleSend (Streams cs e) s = Some s' \<and>
     transcript s' ! Suc (length (transcript s)) =
       \<lparr>role = ''assistant'', content = concat cs\<rparr> \<and>
     take (Suc (Suc (length (transcript s)))) (transcript s') =
       transcript s @ [\<lparr>role = ''user'', content = trim (input s)\<rparr>,
         \<lparr>role = ''assistant'', content = concat cs\<rparr>]"
proof (cases e)
  case Completes
  from turn_completes[OF assms, of cs] obtain s' where
    "handleSend (Streams cs Completes) s = Some s'" and
    "transcript s' = transcript s @ [\<lparr>role = ''user'', content = trim (input s)\<rparr>,
        \<lparr>role = ''assistant'', content = concat cs\<rparr>]"
    by blast
  with Completes show ?thesis by (simp add: nth_new1)
next
  case Throws
  from turn_throws[OF assms, of cs] obtain s' where
    "handleSend (Streams cs Throws) s = Some s'" and
    "transcript s' = transcript s @ [\<lparr>role = ''user'', content = trim (input s)\<rparr>,
        \<lparr>role = ''assistant'', content = concat cs\<rparr>,
        \<lparr>role = ''assistant'', content = error_text\<rparr>]"
    by blast
  with Throws show ?thesis by (simp add: nth_new1)
qed

text \<open>The request after a session of turns that do not overlap: a \<open>user\<close> and a
  \<open>model\<close> entry per successful turn, then the next text.\<close>

lemma prompt_after_session:
  assumes "trim nxt \<noteq> []"
  shows "\<exists>s s1 t. session ts app_init = Some s \<and>
     handleSend_submit (onChange nxt s) = Some (s1, t) \<and>
     contextMessages t =
       concat (map (\<lambda>tc. [\<lparr>parts = [trim (fst tc)], entry_role = ''user''\<rparr>,
                            \<lparr>parts = [the (reply_of (snd tc))], entry_role = ''model''\<rparr>])
                   (filter successful ts))
       @ [\<lparr>parts = [trim nxt], entry_role = ''user''\<rparr>] \<and>
     length (contextMessages t) = 2 * length (filter successful ts) + 1"
proof -
  from session_history[OF app_ok_init, of ts] obtain s where
    run: "session ts app_init = Some s" and
    hi: "history s = concat (map exchange (filter successful ts))"
    by (auto simp: history_init)
  let ?ctx = "concat (map (\<lambda>tc. [\<lparr>parts = [trim (fst tc)], entry_role = ''user''\<rparr>,
                            \<lparr>parts = [the (reply_of (snd tc))], entry_role = ''model''\<rparr>])
                   (filter successful ts))"
  have nb: "trim (input (onChange nxt s)) \<noteq> []" using assms by (simp add: input_onChange)
  obtain s1 t where sub: "handleSend_submit (onChange nxt s) = Some (s1, t)" and
    ctx: "contextMessages t = map to_context (history (onChange nxt s))
        @ [\<lparr>parts = [trim (input (onChange nxt s))], entry_role = ''user''\<rparr>]"
    using submit_explicit[OF nb] by simp
  have ctx': "contextMessages t = ?ctx @ [\<lparr>parts = [trim nxt], entry_role = ''user''\<rparr>]"
    using ctx by (simp add: history_onChange hi to_context_exchanges input_onChange)
  have len: "length (contextMessages t) = 2 * length (filter successful ts) + 1"
    unfolding ctx' by (simp add: length_pairs)
  show ?thesis
    by (intro exI[of _ s] exI[of _ s1] exI[of _ t] conjI run sub ctx' len)
qed

text \<open>A chunk of the turn's stream changes the content of the turn's assistant message
  and nothing else in the transcript.\<close>

lemma chunk_changes_last_content:
  assumes "app_ok s" and "trim (input s) \<noteq> []"
  shows "\<exists>s0 t0 s1 t1 s2 t2.
     handleSend_submit s = Some (s0, t0) \<and>
     handleSend_chunks pre (handleSend_open (s0, t0)) = Some (s1, t1) \<and>
     handleSend_chunk c (s1, t1) = Some (s2, t2) \<and>
     transcript s1 = transcript s @ [\<lparr>role = ''user'', content = trim (input s)\<rparr>,
       \<lparr>role = ''assistant'', content = concat pre\<rparr>] \<and>
     transcript s2 = transcript s @ [\<lparr>role = ''user'', content = trim (input s)\<rparr>,
       \<lparr>role = ''assistant'', content = concat pre @ c\<rparr>] \<and>
     butlast (transcript s2) = butlast (transcript s1) \<and>
     role (last (transcript s2)) = ''assistant''"
proof -
  from submit_state[OF assms] obtain s0 t0 where
    sub: "handleSend_submit s = Some (s0, t0)" and ok0: "app_ok s0" and
    tr0: "transcript s0 = transcript s @ [\<lparr>role = ''user'', content = trim (input s)\<rparr>]"
    by blast
  from stream_state[OF ok0, of pre t0] obtain s1 t1 where
    run: "handleSend_chunks pre (handleSend_open (s0, t0)) = Some (s1, t1)" and
    ok: "app_ok s1" and ne: "messages s1 \<noteq> []" and acc: "accumulatedResponse t1 = concat pre" and
    tr: "transcript s1 = transcript s0 @ [\<lparr>role = ''assistant'', content = concat pre\<rparr>]"
    by blast
  from chunk_frame[OF ok ne, of c t1] obtain s2 t2 where
    one: "handleSend_chunk c (s1, t1) = Some (s2, t2)" and
    bl: "butlast (transcript s2) = butlast (transcript s1)" and
    la: "last (transcript s2) = (last (transcript s1))\<lparr>content := accumulatedResponse t1 @ c\<rparr>" and
    len: "length (transcript s2) = length (transcript s1)"
    by blast
  have tr1: "transcript s1 = transcript s @ [\<lparr>role = ''user'', content = trim (input s)\<rparr>,
       \<lparr>role = ''assistant'', content = concat pre\<rparr>]"
    by (simp add: tr tr0)
  have ne2: "transcript s2 \<noteq> []" using len tr1 by auto
  have "transcript s2 = butlast (transcript s2) @ [last (transcript s2)]"
    using ne2 by simp
  also have "\<dots> = transcript s @ [\<lparr>role = ''user'', content = trim (input s)\<rparr>,
       \<lparr>role = ''assistant'', content = concat pre @ c\<rparr>]"
    unfolding bl la by (simp add: tr1 acc butlast_append)
  finally have tr2: "transcript s2 = transcript s @ [\<lparr>role = ''user'', content = trim (input s)\<rparr>,
       \<lparr>role = ''assistant'', content = concat pre @ c\<rparr>]" .
  have ro: "role (last (transcript s2)) = ''assistant''" by (simp add: tr2)
  show ?thesis
    by (intro exI[of _ s0] exI[of _ t0] exI[of _ s1] exI[of _ t1] exI[of _ s2] exI[of _ t2]
        conjI sub run one tr1 tr2 bl ro)
qed

text \<open>The user message and the committed user entry hold the trimmed input.\<close>

lemma trimmed_text_recorded:
  assumes "app_ok s" and "trim (input s) \<noteq> []"
  shows "(\<exists>s0 t0. handleSend_submit s = Some (s0, t0) \<and>
            transcript s0 = transcript s @ [\<lparr>role = ''user'', content = trim (input s)\<rparr>]) \<and>
         (\<exists>s'. handleSend (Streams cs Completes) s = Some s' \<and>
            history s' = history s @ [\<lparr>role = ''user'', content = trim (input s)\<rparr>,
              \<lparr>role = ''assistant'', content = concat cs\<rparr>]) \<and>
         (\<exists>l r. input s = l @ trim (input s) @ r \<and>
            list_all isWhiteSpace l \<and> list_all isWhiteSpace r) \<and>
         \<not> isWhiteSpace (hd (trim (input s))) \<and> \<not> isWhiteSpace (last (trim (input s)))"
proof (intro conjI)
  from submit_state[OF assms] obtain s0 t0 where
    "handleSend_submit s = Some (s0, t0)"
    "transcript s0 = transcript s @ [\<lparr>role = ''user'', content = trim (input s)\<rparr>]"
    by blast
  then show "\<exists>s0 t0. handleSend_submit s = Some (s0, t0) \<and>
            transcript s0 = transcript s @ [\<lparr>role = ''user'', content = trim (input s)\<rparr>]"
    by (intro exI[of _ s0] exI[of _ t0] conjI)
next
  from turn_completes[OF assms, of cs] obtain s' where
    "handleSend (Streams cs Completes) s = Some s'"
    "history s' = history s @ [\<lparr>role = ''user'', content = trim (input s)\<rparr>,
              \<lparr>role = ''assistant'', content = concat cs\<rparr>]"
    by blast
  then show "\<exists>s'. handleSend (Streams cs Completes) s = Some s' \<and>
            history s' = history s @ [\<lparr>role = ''user'', content = trim (input s)\<rparr>,
              \<lparr>role = ''assistant'', content = concat cs\<rparr>]"
    by (intro exI[of _ s'] conjI)
next
  show "\<exists>l r. input s = l @ trim (input s) @ r \<and>
            list_all isWhiteSpace l \<and> list_all isWhiteSpace r"
    by (rule trim_decomp)
next
  show "\<not> isWhiteSpace (hd (trim (input s)))" using trim_ends[OF assms(2)] by simp
next
  show "\<not> isWhiteSpace (last (trim (input s)))" using trim_ends[OF assms(2)] by simp
qed

section \<open>The claims\<close>

text \<open>
  Enter submits whatever \<open>isThinking\<close> is (C1), so turns can overlap, and then the
  properties the specification states of every turn fail; the theorems for C2, C5, C6, C7,
  C9 and C10 evaluate the event loop on such runs. The theorems for C3 and C4 are about
  every turn submitted in a reachable state with no activation pending and ended before
  any further submission, whatever else the user does in between.
\<close>

text \<open>
  C1. The claim is that a submission made while \<open>isThinking\<close> is true is rejected and
  changes neither the transcript nor the context history. The send button is disabled
  then, but \<open>handleSend\<close> has no such check and \<open>handleKeyDown\<close> calls it on Enter
  whatever \<open>isThinking\<close> is. While the turn \<open>a\<close> is streaming (\<open>isThinking\<close> is true,
  two messages, one activation), Enter with \<open>b\<close> typed appends the user message \<open>b\<close>
  and starts a second activation; a click on the button changes nothing.
\<close>

theorem enter_while_streaming:
  "map_option (\<lambda>y. (isThinking (state y), transcript (state y), length (activations y)))
     (run streaming_a runtime_init)
     = Some (True, [\<lparr>role = ''user'', content = ''a''\<rparr>,
                    \<lparr>role = ''assistant'', content = ''par''\<rparr>], 1) \<and>
   map_option (\<lambda>y. (isThinking (state y), transcript (state y), length (activations y)))
     (run (streaming_a @ [KeyDown enter_key 1024]) runtime_init)
     = Some (True, [\<lparr>role = ''user'', content = ''a''\<rparr>,
                    \<lparr>role = ''assistant'', content = ''par''\<rparr>,
                    \<lparr>role = ''user'', content = ''b''\<rparr>], 2) \<and>
   map_option (\<lambda>y. (isThinking (state y), transcript (state y), length (activations y)))
     (run (streaming_a @ [Click]) runtime_init)
     = Some (True, [\<lparr>role = ''user'', content = ''a''\<rparr>,
                    \<lparr>role = ''assistant'', content = ''par''\<rparr>], 1)"
  by code_simp

text \<open>
  C2. The claim is that after a turn with user text \<open>U\<close> that completes with the reply
  \<open>A\<close> the last two entries of the context history are the user entry \<open>U\<close> and the
  model entry \<open>A\<close>. In the run \<open>overlap\<close> the second turn is submitted with the text
  \<open>b\<close>, its request carries \<open>b\<close>, and it completes with the reply \<open>ok\<close>; the last two
  entries of the history are then the user entry \<open>partial\<close>, the text the first stream
  delivered before it threw, and \<open>ok\<close>. The cause is that of C1 and C7. A turn that runs
  alone does as claimed (\<open>history_after_turn\<close>).
\<close>

theorem overlap_commits_other_text:
  "map_option (\<lambda>y. (fst (activations y ! 1), trimmedInput (snd (activations y ! 1)),
        contextMessages (snd (activations y ! 1)),
        accumulatedResponse (snd (activations y ! 1)),
        drop (length (history (state y)) - 2) (history (state y))))
     (run overlap runtime_init)
   = Some (Finished, ''b'', [\<lparr>parts = [''b''], entry_role = ''user''\<rparr>], ''ok'',
       [\<lparr>role = ''user'', content = ''partial''\<rparr>,
        \<lparr>role = ''assistant'', content = ''ok''\<rparr>])"
  by code_simp

text \<open>
  C3. The claim is that a failure after some chunks overwrites the open assistant message
  with the error text, so that the partial text is no entry of the transcript: the turn
  would leave the user message and the error message. In the scenario of the
  specification (\<open>fail please\<close>, the stream throws after \<open>par\<close>) it does not; the
  transcript ends with two assistant messages, the partial text and then the error text.
\<close>

theorem failed_stream_overwrites_counterexample:
  "map_option transcript
     (handleSend (Streams [''par''] Throws) (onChange ''fail please'' app_init))
   \<noteq> Some [\<lparr>role = ''user'', content = ''fail please''\<rparr>,
           \<lparr>role = ''assistant'', content = error_text\<rparr>] \<and>
   map_option transcript
     (handleSend (Streams [''par''] Throws) (onChange ''fail please'' app_init))
   = Some [\<lparr>role = ''user'', content = ''fail please''\<rparr>,
           \<lparr>role = ''assistant'', content = ''par''\<rparr>,
           \<lparr>role = ''assistant'', content = error_text\<rparr>]"
  by code_simp

text \<open>
  C3, as the code has it, for a turn that no submission overlaps. The state \<open>y\<close> is
  reachable and no activation is pending in it; the event \<open>e\<close> submits the turn, as
  activation \<open>n\<close>; the events \<open>es\<close> follow, among which the user may type, press keys
  and click, but no further activation starts; in the state \<open>y'\<close> they lead to the turn
  has ended. When its stream opened and did not complete, the \<open>catch\<close> block has
  appended a new assistant message with the fixed error text behind the open one, which
  keeps the text of the chunks the stream delivered, and \<open>isThinking\<close> is false.
\<close>

theorem failed_stream_appends_undisturbed:
  assumes "run pre runtime_init = Some y" and "idle y" and "n = length (activations y)"
    and "map_option (\<lambda>z. length (activations z)) (step e y) = Some (Suc n)"
    and "run (e # es) y = Some y'"
    and "length (activations y') = Suc n"
    and "in_phase y' n Finished"
    and "Opened n \<in> set es" and "Completed n \<notin> set es"
  shows "transcript (state y') =
      transcript (state y) @ [\<lparr>role = ''user'', content = trim (input (state y))\<rparr>,
        \<lparr>role = ''assistant'', content = concat (chunks_of n es)\<rparr>,
        \<lparr>role = ''assistant'', content = error_text\<rparr>] \<and>
     isThinking (state y') = False"
proof -
  have ok: "app_ok (state y)" by (rule reachable_app_ok[OF assms(1)])
  have beh: "behaviour n es = Streams (chunks_of n es) Throws"
    using assms(8,9) by (simp add: behaviour_def ending_def)
  from undisturbed_turn[OF assms(2) assms(4-7)[unfolded assms(3)]] beh obtain s' where
    nb: "trim (input (state y)) \<noteq> []" and
    run: "handleSend (Streams (chunks_of n es) Throws) (state y) = Some s'" and
    eq: "eq_but_input s' (state y')"
    unfolding assms(3) by auto
  from turn_throws[OF ok nb, of "chunks_of n es"] run have
    "transcript s' = transcript (state y) @ [\<lparr>role = ''user'', content = trim (input (state y))\<rparr>,
        \<lparr>role = ''assistant'', content = concat (chunks_of n es)\<rparr>,
        \<lparr>role = ''assistant'', content = error_text\<rparr>]" "isThinking s' = False"
    by auto
  with ebi_views[OF eq] show ?thesis by simp
qed

theorem failed_stream_appends_undisturbed_witness:
  "\<exists>y y'. run (after_hello @ [Change ''fail please'']) runtime_init = Some y \<and> idle y \<and>
     length (activations y) = Suc 0 \<and>
     map_option (\<lambda>z. length (activations z)) (step (KeyDown enter_key 1024) y) = Some (Suc (Suc 0)) \<and>
     run (KeyDown enter_key 1024 # failing_stream) y = Some y' \<and>
     length (activations y') = Suc (Suc 0) \<and> in_phase y' (Suc 0) Finished \<and>
     Opened (Suc 0) \<in> set failing_stream \<and> Completed (Suc 0) \<notin> set failing_stream \<and>
     transcript (state y') = [\<lparr>role = ''user'', content = ''hello''\<rparr>,
        \<lparr>role = ''assistant'', content = ''Hi there''\<rparr>,
        \<lparr>role = ''user'', content = ''fail please''\<rparr>,
        \<lparr>role = ''assistant'', content = ''par''\<rparr>,
        \<lparr>role = ''assistant'', content = error_text\<rparr>] \<and>
     isThinking (state y') = False"
proof -
  let ?e = "KeyDown enter_key 1024"
  have "case run (after_hello @ [Change ''fail please'']) runtime_init of None \<Rightarrow> False
        | Some y \<Rightarrow> idle y \<and> Suc 0 = length (activations y) \<and>
            map_option (\<lambda>z. length (activations z)) (step ?e y) = Some (Suc (Suc 0)) \<and>
            transcript (state y) = [\<lparr>role = ''user'', content = ''hello''\<rparr>,
              \<lparr>role = ''assistant'', content = ''Hi there''\<rparr>] \<and>
            trim (input (state y)) = ''fail please'' \<and>
            (case run (?e # failing_stream) y of None \<Rightarrow> False
             | Some y' \<Rightarrow> length (activations y') = Suc (Suc 0) \<and> in_phase y' (Suc 0) Finished)"
    by code_simp
  then obtain y y' where
    pre: "run (after_hello @ [Change ''fail please'']) runtime_init = Some y" and
    idle: "idle y" and n: "Suc 0 = length (activations y)" and
    sub: "map_option (\<lambda>z. length (activations z)) (step ?e y) = Some (Suc (Suc 0))" and
    t0: "transcript (state y) = [\<lparr>role = ''user'', content = ''hello''\<rparr>,
              \<lparr>role = ''assistant'', content = ''Hi there''\<rparr>]" and
    u: "trim (input (state y)) = ''fail please''" and
    r: "run (?e # failing_stream) y = Some y'" and
    len: "length (activations y') = Suc (Suc 0)" and fin: "in_phase y' (Suc 0) Finished"
    by (auto split: option.splits)
  have op: "Opened (Suc 0) \<in> set failing_stream" by (simp add: failing_stream_def)
  have nc: "Completed (Suc 0) \<notin> set failing_stream" by (simp add: failing_stream_def)
  have cs: "concat (chunks_of (Suc 0) failing_stream) = ''par''" by code_simp
  from failed_stream_appends_undisturbed[OF pre idle n sub r len fin op nc]
  have "transcript (state y') = [\<lparr>role = ''user'', content = ''hello''\<rparr>,
        \<lparr>role = ''assistant'', content = ''Hi there''\<rparr>,
        \<lparr>role = ''user'', content = ''fail please''\<rparr>,
        \<lparr>role = ''assistant'', content = ''par''\<rparr>,
        \<lparr>role = ''assistant'', content = error_text\<rparr>]" "isThinking (state y') = False"
    by (simp_all add: t0 u cs)
  with pre idle n[symmetric] sub r len fin op nc show ?thesis
    by (intro exI[of _ y] exI[of _ y'] conjI)
qed

text \<open>
  C4. The claim is that every turn, failed or not, adds exactly one user and one
  assistant message. A stream that throws, here before its first chunk, leaves three new
  messages: the user message, the open assistant message and the error message.
\<close>

theorem two_new_messages_counterexample:
  "map_option (map role \<circ> transcript)
     (handleSend (Streams [] Throws) (onChange ''hi'' app_init))
     \<noteq> Some [''user'', ''assistant''] \<and>
   map_option (map role \<circ> transcript)
     (handleSend (Streams [] Throws) (onChange ''hi'' app_init))
     = Some [''user'', ''assistant'', ''assistant''] \<and>
   map_option transcript
     (handleSend (Streams [] Throws) (onChange ''hi'' app_init))
     = Some [\<lparr>role = ''user'', content = ''hi''\<rparr>,
             \<lparr>role = ''assistant'', content = []\<rparr>,
             \<lparr>role = ''assistant'', content = error_text\<rparr>]"
  by code_simp

text \<open>
  C4, as the code has it, for a turn that no submission overlaps. The state \<open>y\<close> is
  reachable and no activation is pending in it (so \<open>isThinking\<close> is false,
  \<open>idle_not_thinking\<close>); the event \<open>e\<close> submits the turn, as activation \<open>n\<close>; the
  events \<open>es\<close> follow, among which the user may type, press keys and click, but no
  further activation starts; in the state \<open>y'\<close> they lead to the turn has ended. The
  transcript has gained the user message with the trimmed input and then: when the request
  was rejected, the error message; when the stream completed, the assistant message with
  the whole reply; when the stream opened and threw, two messages, the assistant message
  with the text streamed so far and the error message.
\<close>

theorem messages_of_undisturbed_turn:
  assumes "run pre runtime_init = Some y" and "idle y" and "n = length (activations y)"
    and "map_option (\<lambda>z. length (activations z)) (step e y) = Some (Suc n)"
    and "run (e # es) y = Some y'"
    and "length (activations y') = Suc n"
    and "in_phase y' n Finished"
  shows "transcript (state y') =
      transcript (state y) @ \<lparr>role = ''user'', content = trim (input (state y))\<rparr> #
        (if Opened n \<notin> set es then [\<lparr>role = ''assistant'', content = error_text\<rparr>]
         else if Completed n \<in> set es
           then [\<lparr>role = ''assistant'', content = concat (chunks_of n es)\<rparr>]
           else [\<lparr>role = ''assistant'', content = concat (chunks_of n es)\<rparr>,
                 \<lparr>role = ''assistant'', content = error_text\<rparr>])"
proof -
  from undisturbed_turn[OF assms(2) assms(4-7)[unfolded assms(3)]] obtain s' where
    nb: "trim (input (state y)) \<noteq> []" and
    run: "handleSend (behaviour n es) (state y) = Some s'" and
    eq: "eq_but_input s' (state y')"
    unfolding assms(3) by auto
  have ok: "app_ok (state y)" by (rule reachable_app_ok[OF assms(1)])
  have tr: "transcript (state y') = transcript s'" using ebi_views[OF eq] by simp
  show ?thesis
  proof (cases "Opened n \<in> set es")
    case False
    then have "behaviour n es = Rejects" by (simp add: behaviour_def)
    with turn_rejects[OF ok nb] run False show ?thesis by (auto simp: tr)
  next
    case True
    show ?thesis
    proof (cases "Completed n \<in> set es")
      case c: True
      with True have "behaviour n es = Streams (chunks_of n es) Completes"
        by (simp add: behaviour_def ending_def)
      with turn_completes[OF ok nb, of "chunks_of n es"] run True c show ?thesis
        by (auto simp: tr)
    next
      case c: False
      with True have "behaviour n es = Streams (chunks_of n es) Throws"
        by (simp add: behaviour_def ending_def)
      with turn_throws[OF ok nb, of "chunks_of n es"] run True c show ?thesis
        by (auto simp: tr)
    qed
  qed
qed

theorem messages_of_undisturbed_turn_witness:
  "\<exists>y y'. run (after_hello @ [Change ''hi'']) runtime_init = Some y \<and> idle y \<and>
     length (activations y) = Suc 0 \<and>
     map_option (\<lambda>z. length (activations z)) (step (KeyDown enter_key 1024) y) = Some (Suc (Suc 0)) \<and>
     run (KeyDown enter_key 1024 # completing_stream) y = Some y' \<and>
     length (activations y') = Suc (Suc 0) \<and> in_phase y' (Suc 0) Finished \<and>
     transcript (state y') = [\<lparr>role = ''user'', content = ''hello''\<rparr>,
        \<lparr>role = ''assistant'', content = ''Hi there''\<rparr>,
        \<lparr>role = ''user'', content = ''hi''\<rparr>,
        \<lparr>role = ''assistant'', content = ''yo''\<rparr>]"
proof -
  let ?e = "KeyDown enter_key 1024"
  have "case run (after_hello @ [Change ''hi'']) runtime_init of None \<Rightarrow> False
        | Some y \<Rightarrow> idle y \<and> Suc 0 = length (activations y) \<and>
            map_option (\<lambda>z. length (activations z)) (step ?e y) = Some (Suc (Suc 0)) \<and>
            transcript (state y) = [\<lparr>role = ''user'', content = ''hello''\<rparr>,
              \<lparr>role = ''assistant'', content = ''Hi there''\<rparr>] \<and>
            trim (input (state y)) = ''hi'' \<and>
            (case run (?e # completing_stream) y of None \<Rightarrow> False
             | Some y' \<Rightarrow> length (activations y') = Suc (Suc 0) \<and> in_phase y' (Suc 0) Finished)"
    by code_simp
  then obtain y y' where
    pre: "run (after_hello @ [Change ''hi'']) runtime_init = Some y" and
    idle: "idle y" and n: "Suc 0 = length (activations y)" and
    sub: "map_option (\<lambda>z. length (activations z)) (step ?e y) = Some (Suc (Suc 0))" and
    t0: "transcript (state y) = [\<lparr>role = ''user'', content = ''hello''\<rparr>,
              \<lparr>role = ''assistant'', content = ''Hi there''\<rparr>]" and
    u: "trim (input (state y)) = ''hi''" and
    r: "run (?e # completing_stream) y = Some y'" and
    len: "length (activations y') = Suc (Suc 0)" and fin: "in_phase y' (Suc 0) Finished"
    by (auto split: option.splits)
  have op: "Opened (Suc 0) \<in> set completing_stream" by (simp add: completing_stream_def)
  have co: "Completed (Suc 0) \<in> set completing_stream" by (simp add: completing_stream_def)
  have cs: "concat (chunks_of (Suc 0) completing_stream) = ''yo''" by code_simp
  from messages_of_undisturbed_turn[OF pre idle n sub r len fin]
  have "transcript (state y') = [\<lparr>role = ''user'', content = ''hello''\<rparr>,
        \<lparr>role = ''assistant'', content = ''Hi there''\<rparr>,
        \<lparr>role = ''user'', content = ''hi''\<rparr>,
        \<lparr>role = ''assistant'', content = ''yo''\<rparr>]"
    by (simp add: t0 u cs op co)
  with pre idle n[symmetric] sub r len fin show ?thesis
    by (intro exI[of _ y] exI[of _ y'] conjI)
qed

text \<open>
  C5. The claim is that the assistant message of a turn ends with the concatenation of
  all chunks its stream delivered. In the run \<open>overlap\<close> the first stream delivers
  \<open>par\<close> and \<open>tial\<close>, and the activation has accumulated \<open>partial\<close>; its assistant
  message ends with \<open>par\<close>, and no assistant message holds \<open>partial\<close>: the second chunk
  was written into the user message of the second turn, which had become the last element
  of \<open>messages\<close>. The cause is that of C1 and C7. A turn that runs alone does as claimed
  (\<open>chunks_concatenated\<close>).
\<close>

theorem overlap_loses_chunk:
  "map_option (\<lambda>y. (accumulatedResponse (snd (activations y ! 0)),
        filter (\<lambda>m. role m = ''assistant'') (transcript (state y))))
     (run overlap runtime_init)
   = Some (''partial'',
       [\<lparr>role = ''assistant'', content = ''par''\<rparr>,
        \<lparr>role = ''assistant'', content = error_text\<rparr>,
        \<lparr>role = ''assistant'', content = ''ok''\<rparr>])"
  by code_simp

text \<open>
  C6. The claim is that after \<open>N\<close> successful turns the request holds \<open>2 N + 1\<close>
  entries, a user and a model entry per turn and the next text. In the run
  \<open>two_overlapping\<close> two turns complete, with the replies \<open>x\<close> and \<open>y\<close>; the second was
  submitted before the first had ended, so it commits onto the \<open>conversationHistory\<close> it
  captured at its submission, which is empty. The third request has three entries, not
  five, and the exchange of the first turn is not among them. The cause is that of C1 and
  C7. Sessions of turns that do not overlap do as claimed (\<open>prompt_after_session\<close>).
\<close>

theorem overlap_drops_exchange:
  "map_option (\<lambda>y. (map fst (activations y),
        map (accumulatedResponse \<circ> snd) (activations y),
        contextMessages (snd (activations y ! 2)),
        length (contextMessages (snd (activations y ! 2)))))
     (run two_overlapping runtime_init)
   = Some ([Finished, Finished, Requested], [''x'', ''y'', []],
       [\<lparr>parts = [''b''], entry_role = ''user''\<rparr>,
        \<lparr>parts = [''y''], entry_role = ''model''\<rparr>,
        \<lparr>parts = [''c''], entry_role = ''user''\<rparr>], 3)"
  by code_simp

text \<open>
  C7. The claim is that the context history never holds partial or in-progress streaming
  text, so that the request after a failure in the stream is built from complete
  exchanges only. The chunk updater writes to whatever object is last in \<open>messages\<close>;
  after Enter during a stream (see C1) that object is the new \<open>userMessage\<close>, which the
  second activation later puts into \<open>conversationHistory\<close>. In the run \<open>overlap\<close> the
  first turn fails after \<open>par\<close> and \<open>tial\<close>; the history then records \<open>partial\<close> as the
  user's text of the second turn, and the third request is built from it.
\<close>

theorem partial_text_in_history:
  "map_option (\<lambda>y. history (state y)) (run overlap runtime_init)
     = Some [\<lparr>role = ''user'', content = ''partial''\<rparr>,
             \<lparr>role = ''assistant'', content = ''ok''\<rparr>] \<and>
   map_option (\<lambda>y. map (contextMessages \<circ> snd) (activations y))
     (run (overlap @ [Change ''c'', KeyDown enter_key 1024]) runtime_init)
     = Some [[\<lparr>parts = [''a''], entry_role = ''user''\<rparr>],
             [\<lparr>parts = [''b''], entry_role = ''user''\<rparr>],
             [\<lparr>parts = [''partial''], entry_role = ''user''\<rparr>,
              \<lparr>parts = [''ok''], entry_role = ''model''\<rparr>,
              \<lparr>parts = [''c''], entry_role = ''user''\<rparr>]]"
  by code_simp



text \<open>
  C9. The claim is that a chunk changes only the content of the trailing assistant
  message. After Enter during the first stream the trailing message is the user message
  \<open>b\<close>; the next chunk of the first stream changes the content of that user message to
  \<open>partial\<close>. The cause is that of C1 and C7. That a chunk leaves every entry but the
  last as it was holds in every state (\<open>chunk_frame\<close>), and in a turn that runs alone the
  last entry is its assistant message (\<open>chunk_changes_last_content\<close>).
\<close>

theorem chunk_changes_user_message:
  "map_option (\<lambda>y. transcript (state y))
     (run (streaming_a @ [KeyDown enter_key 1024]) runtime_init)
   = Some [\<lparr>role = ''user'', content = ''a''\<rparr>,
           \<lparr>role = ''assistant'', content = ''par''\<rparr>,
           \<lparr>role = ''user'', content = ''b''\<rparr>] \<and>
   map_option (\<lambda>y. transcript (state y))
     (run (streaming_a @ [KeyDown enter_key 1024, Chunk 0 ''tial'']) runtime_init)
   = Some [\<lparr>role = ''user'', content = ''a''\<rparr>,
           \<lparr>role = ''assistant'', content = ''par''\<rparr>,
           \<lparr>role = ''user'', content = ''partial''\<rparr>]"
  by code_simp

text \<open>
  C10. The claim is that the user message of a turn, and the user entry committed to the
  history when the turn completes, hold the trimmed input. In the run \<open>overlap\<close> the
  second turn is submitted with the input \<open>b\<close>, and completes; its user message in the
  transcript and the user entry it committed both hold \<open>partial\<close>. The cause is that of
  C1 and C7. A turn that runs alone does as claimed (\<open>trimmed_text_recorded\<close>).
\<close>

theorem overlap_records_other_text:
  "trim ''b'' = ''b'' \<and>
   map_option (\<lambda>y. (input (state y), transcript (state y)))
     (run streaming_a runtime_init)
   = Some (''b'', [\<lparr>role = ''user'', content = ''a''\<rparr>,
                   \<lparr>role = ''assistant'', content = ''par''\<rparr>]) \<and>
   map_option (\<lambda>y. (transcript (state y) ! 2, history (state y) ! 0))
     (run overlap runtime_init)
   = Some (\<lparr>role = ''user'', content = ''partial''\<rparr>,
           \<lparr>role = ''user'', content = ''partial''\<rparr>)"
  by code_simp

end
